theory Spec2Isabelle
  imports Main "HOL-Library.Multiset"
begin

section \<open>Strings and the regular expressions of server.js\<close>

text \<open>
  A JavaScript string is a sequence of code units; the model is \<open>string\<close>, so it covers the
  strings whose code units are below 256. On these, the class \<open>\s\<close> holds the six ASCII
  white-space characters and the no-break space, \<open>\d\<close> holds the ten ASCII digits, and the
  flag \<open>i\<close> identifies exactly the two cases of an ASCII letter (every literal of the
  patterns below is ASCII).
\<close>

definition isSpace :: "char \<Rightarrow> bool" where
  "isSpace c = (c \<in> set [CHR 0x09, CHR 0x0A, CHR 0x0B, CHR 0x0C, CHR 0x0D, CHR 0x20, CHR 0xA0])"

definition isDigit :: "char \<Rightarrow> bool" where
  "isDigit c = (c \<in> set ''0123456789'')"

definition upperChar :: "char \<Rightarrow> char" where
  "upperChar c =
     (case map_of (zip ''abcdefghijklmnopqrstuvwxyz'' ''ABCDEFGHIJKLMNOPQRSTUVWXYZ'') c of
        Some u \<Rightarrow> u
      | None \<Rightarrow> c)"

definition ciEq :: "char \<Rightarrow> char \<Rightarrow> bool" where
  "ciEq a b = (upperChar a = upperChar b)"

text \<open>A literal of a pattern with flag \<open>i\<close>, matched at the start of the input: the rest.\<close>

fun lit :: "string \<Rightarrow> string \<Rightarrow> string option" where
  "lit [] s = Some s"
| "lit (p # ps) [] = None"
| "lit (p # ps) (c # cs) = (if ciEq p c then lit ps cs else None)"

text \<open>
  A pattern is modelled by its match at the start of the input: the captured text and the
  rest of the input after the match. \<open>firstMatch\<close> is the leftmost match (\<open>String.match\<close>
  without flag \<open>g\<close>, \<open>RegExp.test\<close>); \<open>globalMatch\<close> lists the successive matches from left
  to right, each search starting where the previous match ended (\<open>String.match\<close> with flag
  \<open>g\<close>, the \<open>exec\<close> loops). Every pattern of the program consumes at least one character;
  the guard on the rest only makes that visible to the recursion.
\<close>

fun firstMatch :: "(string \<Rightarrow> ('a \<times> string) option) \<Rightarrow> string \<Rightarrow> ('a \<times> string) option" where
  "firstMatch at [] = at []"
| "firstMatch at (c # cs) = (case at (c # cs) of Some r \<Rightarrow> Some r | None \<Rightarrow> firstMatch at cs)"

function globalMatch :: "(string \<Rightarrow> ('a \<times> string) option) \<Rightarrow> string \<Rightarrow> 'a list" where
  "globalMatch at [] = []"
| "globalMatch at (c # cs) =
     (case at (c # cs) of
        Some (m, rest) \<Rightarrow>
          if length rest \<le> length cs then m # globalMatch at rest else m # globalMatch at cs
      | None \<Rightarrow> globalMatch at cs)"
  by pat_completeness auto
termination
  by (relation "measure (\<lambda>(at, s). length s)") auto

text \<open>The text a match at the start of \<open>s\<close> covers, given the rest it leaves.\<close>

definition matched :: "string \<Rightarrow> string \<Rightarrow> string" where
  "matched s rest = take (length s - length rest) s"

subsection \<open>extractDetailLinks\<close>

text \<open>
  \<^verbatim>\<open>/\/australia\/trademark\/trademark-detail\/\d+\/[^"'>]+/gi\<close>: after the literal,
  \<open>\d+\<close> takes every digit (the next character must be the slash, which is no digit), and
  the last class takes every character up to the next quote or \<open>>\<close>.
\<close>

definition slugChar :: "char \<Rightarrow> bool" where
  "slugChar c = (c \<noteq> CHR 0x22 \<and> c \<noteq> CHR 0x27 \<and> c \<noteq> CHR ''>'')"

definition linkAt :: "string \<Rightarrow> (string \<times> string) option" where
  "linkAt s =
     (case lit ''/australia/trademark/trademark-detail/'' s of
        None \<Rightarrow> None
      | Some r1 \<Rightarrow>
          if takeWhile isDigit r1 = [] then None
          else (case dropWhile isDigit r1 of
                  [] \<Rightarrow> None
                | c # r2 \<Rightarrow>
                    if c \<noteq> CHR ''/'' \<or> takeWhile slugChar r2 = [] then None
                    else Some (matched s (dropWhile slugChar r2), dropWhile slugChar r2)))"

text \<open>\<open>new Set(matches)\<close> keeps the first insertion of each value, in insertion order.\<close>

definition setAdd :: "'a list \<Rightarrow> 'a \<Rightarrow> 'a list" where
  "setAdd xs x = (if x \<in> set xs then xs else xs @ [x])"

definition arrayFromSet :: "'a list \<Rightarrow> 'a list" where
  "arrayFromSet xs = foldl setAdd [] xs"

definition extractDetailLinks :: "string \<Rightarrow> string list" where
  "extractDetailLinks html = arrayFromSet (globalMatch linkAt html)"

subsection \<open>The replacements, the trimming and the splitting of parseDetail\<close>

text \<open>
  \<open>String.replace\<close> with flag \<open>g\<close> rewrites the successive matches from left to right
  and copies the characters between them; \<open>String.split\<close> cuts the input at the successive
  matches of the separator and always returns the last piece, the empty one too.
\<close>

function replaceAll :: "(string \<Rightarrow> (unit \<times> string) option) \<Rightarrow> string \<Rightarrow> string \<Rightarrow> string" where
  "replaceAll at rep [] = []"
| "replaceAll at rep (c # cs) =
     (case at (c # cs) of
        Some (u, rest) \<Rightarrow>
          if length rest \<le> length cs then rep @ replaceAll at rep rest
          else rep @ c # replaceAll at rep cs
      | None \<Rightarrow> c # replaceAll at rep cs)"
  by pat_completeness auto
termination
  by (relation "measure (\<lambda>(at, rep, s). length s)") auto

function splitLoop :: "(string \<Rightarrow> (unit \<times> string) option) \<Rightarrow> string \<Rightarrow> string \<Rightarrow> string list" where
  "splitLoop at piece [] = [piece]"
| "splitLoop at piece (c # cs) =
     (case at (c # cs) of
        Some (u, rest) \<Rightarrow>
          if length rest \<le> length cs then piece # splitLoop at [] rest
          else splitLoop at (piece @ [c]) cs
      | None \<Rightarrow> splitLoop at (piece @ [c]) cs)"
  by pat_completeness auto
termination
  by (relation "measure (\<lambda>(at, piece, s). length s)") auto

definition splitOn :: "(string \<Rightarrow> (unit \<times> string) option) \<Rightarrow> string \<Rightarrow> string list" where
  "splitOn at s = splitLoop at [] s"

definition trim :: "string \<Rightarrow> string" where
  "trim s = rev (dropWhile isSpace (rev (dropWhile isSpace s)))"

text \<open>\<^verbatim>\<open>/<[^>]*>/\<close>: from a \<open><\<close> to the first \<open>>\<close> after it.\<close>

definition tagAt :: "string \<Rightarrow> (unit \<times> string) option" where
  "tagAt s =
     (case s of
        [] \<Rightarrow> None
      | c # r \<Rightarrow>
          if c \<noteq> CHR ''<'' then None
          else (case dropWhile (\<lambda>x. x \<noteq> CHR ''>'') r of
                  [] \<Rightarrow> None
                | g # rest \<Rightarrow> Some ((), rest)))"

text \<open>\<^verbatim>\<open>/&nbsp;/i\<close>\<close>

definition nbspAt :: "string \<Rightarrow> (unit \<times> string) option" where
  "nbspAt s = map_option (Pair ()) (lit ''&nbsp;'' s)"

text \<open>\<^verbatim>\<open>/\s+/\<close>\<close>

definition spacesAt :: "string \<Rightarrow> (unit \<times> string) option" where
  "spacesAt s = (if takeWhile isSpace s = [] then None else Some ((), dropWhile isSpace s))"

text \<open>
  \<^verbatim>\<open>/\s*[-]+>\s*/\<close>: the white space, then every hyphen, then \<open>>\<close>, then the white
  space. Giving back white space or hyphens cannot help, the next character being then a
  white space or a hyphen again.
\<close>

definition arrowAt :: "string \<Rightarrow> (unit \<times> string) option" where
  "arrowAt s =
     (let r = dropWhile isSpace s in
      if takeWhile (\<lambda>x. x = CHR ''-'') r = [] then None
      else (case dropWhile (\<lambda>x. x = CHR ''-'') r of
              [] \<Rightarrow> None
            | g # rest \<Rightarrow> if g = CHR ''>'' then Some ((), dropWhile isSpace rest) else None))"

text \<open>\<^verbatim>\<open>/\s*&gt;\s*/i\<close>\<close>

definition gtEntityAt :: "string \<Rightarrow> (unit \<times> string) option" where
  "gtEntityAt s = map_option (\<lambda>rest. ((), dropWhile isSpace rest)) (lit ''&gt;'' (dropWhile isSpace s))"

text \<open>
  The separator of the owner cell is the alternation of the arrow, of the glyph U+2192 and
  of the entity. The glyph is a code unit above 255, so its alternative matches nowhere in
  the strings of the model; the other two are tried in the order of the pattern.
\<close>

definition separatorAt :: "string \<Rightarrow> (unit \<times> string) option" where
  "separatorAt s = (case arrowAt s of Some r \<Rightarrow> Some r | None \<Rightarrow> gtEntityAt s)"

text \<open>The chain of four calls that cleans a captured cell.\<close>

definition cleanHtml :: "string \<Rightarrow> string" where
  "cleanHtml raw = trim (replaceAll spacesAt '' '' (replaceAll nbspAt '' '' (replaceAll tagAt '' '' raw)))"

subsection \<open>The label and value table\<close>

text \<open>
  \<^verbatim>\<open><th[^>]*>\s*LABEL\s*<\/th>\s*<td[^>]*>([\s\S]*?)<\/td>\<close> with flag \<open>i\<close>. An opening tag
  runs to the first \<open>>\<close>; each \<open>\s*\<close> takes all the white space, since a literal that does
  not start with white space follows; the lazy group ends at the first closing tag.
\<close>

definition openTag :: "string \<Rightarrow> string \<Rightarrow> string option" where
  "openTag t s =
     (case lit t s of
        None \<Rightarrow> None
      | Some r \<Rightarrow> (case dropWhile (\<lambda>x. x \<noteq> CHR ''>'') r of [] \<Rightarrow> None | g # rest \<Rightarrow> Some rest))"

fun upTo :: "string \<Rightarrow> string \<Rightarrow> (string \<times> string) option" where
  "upTo cl [] = map_option (Pair []) (lit cl [])"
| "upTo cl (c # cs) =
     (case lit cl (c # cs) of
        Some r \<Rightarrow> Some ([], r)
      | None \<Rightarrow> map_option (\<lambda>(g, r). (c # g, r)) (upTo cl cs))"

definition cellAt :: "(string \<Rightarrow> string option) \<Rightarrow> string \<Rightarrow> (string \<times> string) option" where
  "cellAt label s =
     Option.bind (openTag ''<th'' s) (\<lambda>r1.
     Option.bind (label (dropWhile isSpace r1)) (\<lambda>r2.
     Option.bind (lit ''</th>'' (dropWhile isSpace r2)) (\<lambda>r3.
     Option.bind (openTag ''<td'' (dropWhile isSpace r3)) (\<lambda>r4.
     upTo ''</td>'' r4))))"

definition extractTableValue :: "string \<Rightarrow> string \<Rightarrow> string" where
  "extractTableValue html label =
     (case firstMatch (cellAt (lit label)) html of
        Some (m1, rest) \<Rightarrow> cleanHtml m1
      | None \<Rightarrow> [])"

text \<open>\<^verbatim>\<open>Trademark\s*Owner\<close>, the label of the owner cell.\<close>

definition ownerLabel :: "string \<Rightarrow> string option" where
  "ownerLabel s = Option.bind (lit ''Trademark'' s) (\<lambda>r. lit ''Owner'' (dropWhile isSpace r))"

text \<open>\<^verbatim>\<open>/<div[^>]*>([\s\S]*?)<\/div>/gi\<close>\<close>

definition divAt :: "string \<Rightarrow> (string \<times> string) option" where
  "divAt s = Option.bind (openTag ''<div'' s) (upTo ''</div>'')"

subsection \<open>Status, status description and classes\<close>

text \<open>\<^verbatim>\<open>/\sLIVE\s/i\<close> and \<^verbatim>\<open>/\sDEAD\s/i\<close>: the word between two white-space characters.\<close>

definition spacedWordAt :: "string \<Rightarrow> string \<Rightarrow> (unit \<times> string) option" where
  "spacedWordAt w s =
     (case s of
        [] \<Rightarrow> None
      | c # r \<Rightarrow>
          if \<not> isSpace c then None
          else (case lit w r of
                  None \<Rightarrow> None
                | Some [] \<Rightarrow> None
                | Some (d # rest) \<Rightarrow> if isSpace d then Some ((), rest) else None))"

definition test :: "(string \<Rightarrow> ('a \<times> string) option) \<Rightarrow> string \<Rightarrow> bool" where
  "test at s = (firstMatch at s \<noteq> None)"

text \<open>
  \<^verbatim>\<open>/Current\s+Status\s+([^<\n]+)/i\<close>. The second \<open>\s+\<close> first takes all the white space;
  when the group finds no character there, the white space is given back one character at a
  time, down to one, and the group starts at the first given-back character that is not a
  line feed.
\<close>

definition descChar :: "char \<Rightarrow> bool" where
  "descChar c = (c \<noteq> CHR ''<'' \<and> c \<noteq> CHR 0x0A)"

fun descFrom :: "nat \<Rightarrow> string \<Rightarrow> (string \<times> string) option" where
  "descFrom 0 r = None"
| "descFrom (Suc j) r =
     (if takeWhile descChar (drop (Suc j) r) \<noteq> []
      then Some (takeWhile descChar (drop (Suc j) r), dropWhile descChar (drop (Suc j) r))
      else descFrom j r)"

definition statusDescAt :: "string \<Rightarrow> (string \<times> string) option" where
  "statusDescAt s =
     Option.bind (lit ''Current'' s) (\<lambda>r1.
       if takeWhile isSpace r1 = [] then None
       else Option.bind (lit ''Status'' (dropWhile isSpace r1)) (\<lambda>r2.
              descFrom (length (takeWhile isSpace r2)) r2))"

text \<open>\<^verbatim>\<open>/Class\s*(\d{3})/gi\<close>\<close>

definition classAt :: "string \<Rightarrow> (string \<times> string) option" where
  "classAt s =
     Option.bind (lit ''Class'' s) (\<lambda>r1.
       let r2 = dropWhile isSpace r1 in
       if 3 \<le> length r2 \<and> list_all isDigit (take 3 r2) then Some (take 3 r2, drop 3 r2) else None)"

section \<open>Detail records and parseDetail\<close>

text \<open>
  A detail record is a JavaScript object: each property is present or absent. The object
  parseDetail returns has the first nine properties; processName adds \<open>detailUrl\<close>; the
  record of a failed detail page has \<open>error\<close> only. A record read back from a cache file
  has whatever properties the file holds; a property that is present is taken to have the
  type parseDetail gives it (a string, and a list of strings for \<open>classes\<close>).
\<close>

record detail =
  applicationNumber :: "string option"
  wordMark :: "string option"
  ownerName :: "string option"
  ownerAddress :: "string option"
  owner :: "string option"
  filingDate :: "string option"
  status :: "string option"
  statusDesc :: "string option"
  classes :: "string list option"
  detailUrl :: "string option"
  error :: "string option"

definition emptyObject :: detail where
  "emptyObject =
     \<lparr>applicationNumber = None, wordMark = None, ownerName = None, ownerAddress = None,
      owner = None, filingDate = None, status = None, statusDesc = None, classes = None,
      detailUrl = None, error = None\<rparr>"

text \<open>
  The block of parseDetail that fills \<open>ownerName\<close> and \<open>ownerAddress\<close>: \<open>ownerOfCell\<close>
  is the body of \<open>if (ownerMatch)\<close>, applied to the captured cell.
\<close>

definition joinSpace :: "string list \<Rightarrow> string" where
  "joinSpace xs = (case xs of [] \<Rightarrow> [] | x # ys \<Rightarrow> foldl (\<lambda>acc y. acc @ '' '' @ y) x ys)"

definition divText :: "string \<Rightarrow> string" where
  "divText d1 = replaceAll arrowAt '' '' (cleanHtml d1)"

definition ownerOfCell :: "string \<Rightarrow> string \<times> string" where
  "ownerOfCell tdHtml =
     (let parts = filter (\<lambda>text. text \<noteq> []) (map divText (globalMatch divAt tdHtml)) in
      if parts \<noteq> [] then
        (hd parts, if 1 < length parts then joinSpace (tl parts) else [])
      else
        (let cleaned = cleanHtml tdHtml;
             arrowSplit = filter (\<lambda>x. x \<noteq> []) (splitOn separatorAt cleaned) in
         if arrowSplit \<noteq> [] then
           (trim (hd arrowSplit),
            if 1 < length arrowSplit then trim (joinSpace (tl arrowSplit)) else [])
         else (trim (replaceAll arrowAt '' '' cleaned), [])))"

definition parseOwner :: "string \<Rightarrow> string \<times> string" where
  "parseOwner html =
     (case firstMatch (cellAt ownerLabel) html of
        None \<Rightarrow> ([], [])
      | Some (tdHtml, rest) \<Rightarrow> ownerOfCell tdHtml)"

definition parseStatus :: "string \<Rightarrow> string" where
  "parseStatus html =
     (if test (spacedWordAt ''LIVE'') html then ''LIVE''
      else if test (spacedWordAt ''DEAD'') html then ''DEAD''
      else [])"

definition parseStatusDesc :: "string \<Rightarrow> string" where
  "parseStatusDesc html =
     (case firstMatch statusDescAt html of Some (m1, rest) \<Rightarrow> trim m1 | None \<Rightarrow> [])"

definition parseClasses :: "string \<Rightarrow> string list" where
  "parseClasses html = arrayFromSet (globalMatch classAt html)"

definition parseDetail :: "string \<Rightarrow> detail" where
  "parseDetail html =
     (let (name, address) = parseOwner html in
      \<lparr>applicationNumber = Some (extractTableValue html ''Application Number''),
       wordMark = Some (extractTableValue html ''Word Mark''),
       ownerName = Some name,
       ownerAddress = Some address,
       owner = Some (if address \<noteq> [] then name @ '', '' @ address else name),
       filingDate = Some (extractTableValue html ''Filing Date''),
       status = Some (parseStatus html),
       statusDesc = Some (parseStatusDesc html),
       classes = Some (parseClasses html),
       detailUrl = None,
       error = None\<rparr>)"

section \<open>The environment: pages and cache files\<close>

text \<open>
  \<open>fetchPage\<close> returns the text of a page or throws an error with a message: \<open>page\<close>
  gives, for each URL, the message (\<open>Inl\<close>) or the text (\<open>Inr\<close>); it stays the same
  while upstream does not change. \<open>writeFile\<close> tells, for each file name, how
  \<open>fs.writeFileSync\<close> ends: the file is written; or the call fails before the file is
  opened and the file stays as it was; or the call fails after the file was opened, which
  empties it, and what is left is no JSON text. The world holds the cache files and the
  list of the effects performed so far, in order.
\<close>

datatype event = Fetch string | CacheRead string | CacheWrite string

datatype writeResult = Written | Refused | Truncated

text \<open>
  The value processName keeps in \<open>cached\<close>. Line 187 takes whatever truthy value the file
  has under \<open>detailCache\<close>: an object, that is a mapping from URLs to records; a non-empty
  string, a number or \<open>true\<close>, on which every property read gives \<open>undefined\<close> and every
  assignment is dropped (the module is not in strict mode); or an array, which takes the
  assignments as named properties while the call runs. An entry of the mapping counts when
  it is truthy, and is taken to be a record.
\<close>

datatype cacheObject =
  ObjectValue "string \<rightharpoonup> detail"
  | PrimitiveValue
  | ArrayValue "string \<rightharpoonup> detail"

definition lookupCache :: "cacheObject \<Rightarrow> string \<Rightarrow> detail option" where
  "lookupCache c url =
     (case c of ObjectValue m \<Rightarrow> m url | PrimitiveValue \<Rightarrow> None | ArrayValue m \<Rightarrow> m url)"

definition storeCache :: "cacheObject \<Rightarrow> string \<Rightarrow> detail \<Rightarrow> cacheObject" where
  "storeCache c url info =
     (case c of
        ObjectValue m \<Rightarrow> ObjectValue (m(url \<mapsto> info))
      | PrimitiveValue \<Rightarrow> PrimitiveValue
      | ArrayValue m \<Rightarrow> ArrayValue (m(url \<mapsto> info)))"

text \<open>
  The content of a cache file, as \<open>JSON.parse\<close> sees it: unreadable or no JSON, or a value
  with what it has under \<open>detailCache\<close>: nothing truthy, an object, a string, number or
  \<open>true\<close>, or an array. \<open>JSON.stringify\<close> writes the mapping of an object, writes a
  string, a number or \<open>true\<close> as it is, and writes the elements of an array without its
  named properties.
\<close>

datatype stored = NoDetailCache | StoredObject "string \<rightharpoonup> detail" | StoredPrimitive | StoredArray

datatype blob = Unreadable | Parsed stored

definition stringified :: "cacheObject \<Rightarrow> stored" where
  "stringified c =
     (case c of
        ObjectValue m \<Rightarrow> StoredObject m
      | PrimitiveValue \<Rightarrow> StoredPrimitive
      | ArrayValue m \<Rightarrow> StoredArray)"

definition fromStored :: "stored \<Rightarrow> cacheObject" where
  "fromStored x =
     (case x of
        NoDetailCache \<Rightarrow> ObjectValue Map.empty
      | StoredObject m \<Rightarrow> ObjectValue m
      | StoredPrimitive \<Rightarrow> PrimitiveValue
      | StoredArray \<Rightarrow> ArrayValue Map.empty)"

record env =
  page :: "string \<Rightarrow> string + string"
  writeFile :: "string \<Rightarrow> writeResult"

record world =
  files :: "string \<rightharpoonup> blob"
  effects :: "event list"

text \<open>
  \<open>encodeURIComponent\<close> keeps the unreserved characters and writes every other code unit
  as the bytes of its UTF-8 encoding, each as a percent sign and two upper-case hexadecimal
  digits (two bytes for the code units from 128 to 255).
\<close>

definition hexByte :: "nat \<Rightarrow> string" where
  "hexByte n = [CHR ''%'', ''0123456789ABCDEF'' ! (n div 16), ''0123456789ABCDEF'' ! (n mod 16)]"

definition unreserved :: "char \<Rightarrow> bool" where
  "unreserved c =
     (c \<in> set ''ABCDEFGHIJKLMNOPQRSTUVWXYZabcdefghijklmnopqrstuvwxyz0123456789-_.!~*()''
      \<or> c = CHR 0x27)"

definition encodeChar :: "char \<Rightarrow> string" where
  "encodeChar c =
     (if unreserved c then [c]
      else if (of_char c :: nat) < 128 then hexByte (of_char c)
      else hexByte (192 + of_char c div 64) @ hexByte (128 + of_char c mod 64))"

definition encodeURIComponent :: "string \<Rightarrow> string" where
  "encodeURIComponent s = concat (map encodeChar s)"

definition cacheFile :: "string \<Rightarrow> string" where
  "cacheFile name = encodeURIComponent name @ ''.json''"

text \<open>
  loadCache, together with the line of processName that reads \<open>detailCache\<close> from its
  result: a missing file, an unreadable one and a value with nothing truthy under
  \<open>detailCache\<close> all give the empty object.
\<close>

definition loadCache :: "string \<Rightarrow> world \<Rightarrow> cacheObject \<times> world" where
  "loadCache name w =
     ((case files w (cacheFile name) of
         None \<Rightarrow> ObjectValue Map.empty
       | Some Unreadable \<Rightarrow> ObjectValue Map.empty
       | Some (Parsed x) \<Rightarrow> fromStored x),
      w\<lparr>effects := effects w @ [CacheRead name]\<rparr>)"

text \<open>saveCache overwrites the file; a failed write is logged and the call goes on.\<close>

definition saveCache :: "env \<Rightarrow> string \<Rightarrow> cacheObject \<Rightarrow> world \<Rightarrow> world" where
  "saveCache e name data w =
     w\<lparr>files :=
         (case writeFile e (cacheFile name) of
            Written \<Rightarrow> (files w)(cacheFile name \<mapsto> Parsed (stringified data))
          | Refused \<Rightarrow> files w
          | Truncated \<Rightarrow> (files w)(cacheFile name \<mapsto> Unreadable)),
       effects := effects w @ [CacheWrite name]\<rparr>"

definition fetchPage :: "env \<Rightarrow> string \<Rightarrow> world \<Rightarrow> (string + string) \<times> world" where
  "fetchPage e url w = (page e url, w\<lparr>effects := effects w @ [Fetch url]\<rparr>)"

section \<open>processName\<close>

record searchResult =
  score :: string
  explanation :: string
  details :: "detail list"

text \<open>The variables the loop over the detail links updates.\<close>

record locals =
  detailsV :: "detail list"
  hasLive :: bool
  hasRedMark :: bool
  cached :: cacheObject

definition baseUrl :: string where
  "baseUrl = ''https://www.trademarkelite.com''"

definition searchUrl :: "string \<Rightarrow> string" where
  "searchUrl name = baseUrl @ ''/australia/trademark/trademark-search.aspx?sw='' @ encodeURIComponent name"

text \<open>
  The message of the TypeError that \<open>info.classes.includes\<close> throws when the record has no
  \<open>classes\<close> property.
\<close>

definition typeErrorMessage :: string where
  "typeErrorMessage =
     ''Cannot read properties of undefined (reading '' @ [CHR 0x27] @ ''includes'' @ [CHR 0x27] @ '')''"

text \<open>
  The block \<open>if (info.status === 'LIVE') { ... }\<close>, which both branches of the loop
  contain: the new values of \<open>hasLive\<close> and \<open>hasRedMark\<close>, or the TypeError.
\<close>

definition noteLive :: "detail \<Rightarrow> locals \<Rightarrow> string + locals" where
  "noteLive info v =
     (if status info = Some ''LIVE'' then
        (case classes info of
           None \<Rightarrow> Inl typeErrorMessage
         | Some cs \<Rightarrow>
             Inr (v\<lparr>hasLive := True,
                    hasRedMark := (if ''009'' \<in> set cs \<or> ''028'' \<in> set cs \<or> ''041'' \<in> set cs
                                   then True else hasRedMark v)\<rparr>))
      else Inr v)"

definition errorRecord :: "string \<Rightarrow> detail" where
  "errorRecord message = emptyObject\<lparr>error := Some (''Error processing detail page: '' @ message)\<rparr>"

text \<open>\<open>!info.detailUrl\<close>: the property is absent or the empty string.\<close>

definition ensureDetailUrl :: "string \<Rightarrow> detail \<Rightarrow> detail" where
  "ensureDetailUrl url info =
     (if detailUrl info = None \<or> detailUrl info = Some [] then info\<lparr>detailUrl := Some url\<rparr> else info)"

text \<open>
  The loop \<open>for (const relLink of detailLinks)\<close>. A cached record is the object the
  cache holds, so filling in its \<open>detailUrl\<close> changes the cache too. In the cached
  branch the TypeError leaves processName; in the other branch the \<open>try\<close> block catches
  whatever is thrown after the page was requested.
\<close>

fun forLinks :: "env \<Rightarrow> string list \<Rightarrow> locals \<Rightarrow> world \<Rightarrow> (string + locals) \<times> world" where
  "forLinks e [] v w = (Inr v, w)"
| "forLinks e (relLink # rest) v w =
     (let url = baseUrl @ relLink in
      case lookupCache (cached v) url of
        Some info0 \<Rightarrow>
          (let info = ensureDetailUrl url info0;
               v1 = v\<lparr>detailsV := detailsV v @ [info], cached := storeCache (cached v) url info\<rparr> in
           case noteLive info v1 of
             Inl message \<Rightarrow> (Inl message, w)
           | Inr v2 \<Rightarrow> forLinks e rest v2 w)
      | None \<Rightarrow>
          (case fetchPage e url w of
             (Inl message, w1) \<Rightarrow>
               forLinks e rest (v\<lparr>detailsV := detailsV v @ [errorRecord message]\<rparr>) w1
           | (Inr html, w1) \<Rightarrow>
               (let info = (parseDetail html)\<lparr>detailUrl := Some url\<rparr>;
                    v1 = v\<lparr>detailsV := detailsV v @ [info], cached := storeCache (cached v) url info\<rparr> in
                case noteLive info v1 of
                  Inl message \<Rightarrow>
                    forLinks e rest (v1\<lparr>detailsV := detailsV v1 @ [errorRecord message]\<rparr>) w1
                | Inr v2 \<Rightarrow> forLinks e rest v2 w1)))"

definition summary :: "locals \<Rightarrow> searchResult" where
  "summary v =
     (if \<not> hasLive v then
        \<lparr>score = ''Green'',
         explanation = ''No live trademark registrations were found for this name.'',
         details = detailsV v\<rparr>
      else if hasRedMark v then
        \<lparr>score = ''Red'',
         explanation = ''At least one live filing lists classes 009, 028 or 041.'',
         details = detailsV v\<rparr>
      else
        \<lparr>score = ''Yellow'',
         explanation = ''Live filings exist, but none contain 009, 028 or 041.'',
         details = detailsV v\<rparr>)"

text \<open>
  processName returns the result (\<open>Inr\<close>) or throws an error with a message (\<open>Inl\<close>).
\<close>

definition processName :: "env \<Rightarrow> string \<Rightarrow> world \<Rightarrow> (string + searchResult) \<times> world" where
  "processName e name w =
     (case fetchPage e (searchUrl name) w of
        (Inl message, w1) \<Rightarrow> (Inl message, w1)
      | (Inr searchHtml, w1) \<Rightarrow>
          (let detailLinks = extractDetailLinks searchHtml;
               (cached0, w2) = loadCache name w1 in
           case forLinks e detailLinks
                  \<lparr>detailsV = [], hasLive = False, hasRedMark = False, cached = cached0\<rparr> w2 of
             (Inl message, w3) \<Rightarrow> (Inl message, w3)
           | (Inr v, w3) \<Rightarrow> (Inr (summary v), saveCache e name (cached v) w3)))"

section \<open>The request handler\<close>

text \<open>
  The handler of \<open>POST /api/search\<close>, from the parsed body on. \<open>names\<close> is \<open>Some\<close> of the
  string when the body has a string under \<open>names\<close>, and \<open>None\<close> otherwise. The result of a
  name is what processName returned, or the object \<open>{error: message}\<close> when it threw.
  \<open>result\<close> is a plain object: assigning to its property \<open>__proto__\<close> sets its prototype and
  adds no property, so \<open>JSON.stringify\<close> does not write that name.
\<close>

datatype response = BadRequest string | Ok "string \<rightharpoonup> (string + searchResult)"

text \<open>\<^verbatim>\<open>/[\n,]+/\<close>\<close>

definition delimiterAt :: "string \<Rightarrow> (unit \<times> string) option" where
  "delimiterAt s =
     (if takeWhile (\<lambda>c. c = CHR 0x0A \<or> c = CHR '','') s = [] then None
      else Some ((), dropWhile (\<lambda>c. c = CHR 0x0A \<or> c = CHR '','') s))"

definition nameList :: "string \<Rightarrow> string list" where
  "nameList names = filter (\<lambda>s. s \<noteq> []) (map trim (splitOn delimiterAt names))"

definition assignResult ::
  "(string \<rightharpoonup> (string + searchResult)) \<Rightarrow> string \<Rightarrow> (string + searchResult) \<Rightarrow>
   (string \<rightharpoonup> (string + searchResult))" where
  "assignResult result n r = (if n = ''__proto__'' then result else result(n \<mapsto> r))"

fun forNames ::
  "env \<Rightarrow> string list \<Rightarrow> (string \<rightharpoonup> (string + searchResult)) \<Rightarrow> world \<Rightarrow>
   (string \<rightharpoonup> (string + searchResult)) \<times> world" where
  "forNames e [] result w = (result, w)"
| "forNames e (n # ns) result w =
     (case processName e n w of (r, w1) \<Rightarrow> forNames e ns (assignResult result n r) w1)"

definition missingNames :: string where
  "missingNames = ''Missing or invalid '' @ [CHR 0x22] @ ''names'' @ [CHR 0x22] @ '' field.''"

definition handleSearch :: "env \<Rightarrow> string option \<Rightarrow> world \<Rightarrow> response \<times> world" where
  "handleSearch e names w =
     (case names of
        None \<Rightarrow> (BadRequest missingNames, w)
      | Some s \<Rightarrow>
          if s = [] then (BadRequest missingNames, w)
          else (case forNames e (nameList s) Map.empty w of (result, w1) \<Rightarrow> (Ok result, w1)))"

section \<open>Predicates of the specification\<close>

text \<open>
  A detail-page path: the fixed prefix in any letter case, one or more digits, a slash and a
  non-empty slug without quote or \<open>>\<close>.
\<close>

definition isDetailPath :: "string \<Rightarrow> bool" where
  "isDetailPath p =
     (\<exists>pre ds slug. p = pre @ ds @ ''/'' @ slug
        \<and> map upperChar pre = map upperChar ''/australia/trademark/trademark-detail/''
        \<and> ds \<noteq> [] \<and> list_all isDigit ds \<and> slug \<noteq> [] \<and> list_all slugChar slug)"

text \<open>
  The occurrences of the pattern in a markup, without reference to the scanning. The pattern
  matches the text \<open>m\<close> at the start of \<open>m @ rest\<close> when \<open>m\<close> is a detail-page path and
  no character of a slug follows it (the last class of the pattern is greedy).
  \<open>occurrences s ms\<close> cuts \<open>s\<close> from left to right: a gap in which no match starts at
  any position, the first match, and then the same for what follows it; after the last
  match no match starts anywhere. \<open>firstIndex ms x\<close> is the place of the first \<open>x\<close> in
  \<open>ms\<close>.
\<close>

definition linkMatch :: "string \<Rightarrow> string \<Rightarrow> bool" where
  "linkMatch m rest = (isDetailPath m \<and> (rest = [] \<or> \<not> slugChar (hd rest)))"

definition linkStarts :: "string \<Rightarrow> bool" where
  "linkStarts s = (\<exists>m rest. s = m @ rest \<and> linkMatch m rest)"

inductive occurrences :: "string \<Rightarrow> string list \<Rightarrow> bool" where
  occurrences_none: "\<forall>k. \<not> linkStarts (drop k s) \<Longrightarrow> occurrences s []"
| occurrences_next:
    "s = gap @ m @ rest \<Longrightarrow> linkMatch m rest \<Longrightarrow> \<forall>j < length gap. \<not> linkStarts (drop j s) \<Longrightarrow>
     occurrences rest ms \<Longrightarrow> occurrences s (m # ms)"

definition firstIndex :: "'a list \<Rightarrow> 'a \<Rightarrow> nat" where
  "firstIndex ms x = length (takeWhile (\<lambda>y. y \<noteq> x) ms)"

text \<open>
  The word \<open>w\<close>, in any letter case, between two white-space characters somewhere in \<open>s\<close>.
\<close>

definition spacedWord :: "string \<Rightarrow> string \<Rightarrow> bool" where
  "spacedWord w s =
     (\<exists>pre a m b post. s = pre @ a # m @ b # post \<and> isSpace a \<and> isSpace b
        \<and> map upperChar m = map upperChar w)"

text \<open>
  The reading of the specification: \<open>w\<close> occurs in \<open>s\<close>, in any letter case, as a whole
  word, that is with no letter, digit or underscore right before or right after it.
\<close>

definition wordChar :: "char \<Rightarrow> bool" where
  "wordChar c =
     (c \<in> set ''ABCDEFGHIJKLMNOPQRSTUVWXYZabcdefghijklmnopqrstuvwxyz0123456789_'')"

definition wholeWord :: "string \<Rightarrow> string \<Rightarrow> bool" where
  "wholeWord w s =
     (\<exists>pre m post. s = pre @ m @ post \<and> map upperChar m = map upperChar w
        \<and> (pre = [] \<or> \<not> wordChar (last pre)) \<and> (post = [] \<or> \<not> wordChar (hd post)))"

text \<open>
  The risk classifier, in the words of the specification: \<open>hasLiveIn\<close> holds when some
  record has status LIVE, \<open>hasRedClassIn\<close> when some LIVE record lists one of the classes
  009, 028 and 041.
\<close>

definition isLive :: "detail \<Rightarrow> bool" where
  "isLive d = (status d = Some ''LIVE'')"

definition flagged :: "string list \<Rightarrow> bool" where
  "flagged cs = (''009'' \<in> set cs \<or> ''028'' \<in> set cs \<or> ''041'' \<in> set cs)"

definition liveRed :: "detail \<Rightarrow> bool" where
  "liveRed d = (isLive d \<and> (case classes d of None \<Rightarrow> False | Some cs \<Rightarrow> flagged cs))"

definition hasLiveIn :: "detail list \<Rightarrow> bool" where
  "hasLiveIn ds = list_ex isLive ds"

definition hasRedClassIn :: "detail list \<Rightarrow> bool" where
  "hasRedClassIn ds = list_ex liveRed ds"

text \<open>A record with status LIVE and no \<open>classes\<close> property.\<close>

definition unclassed :: "detail \<Rightarrow> bool" where
  "unclassed d = (isLive d \<and> classes d = None)"

text \<open>
  What one turn of the loop does for a URL, given what the cache holds for each URL at that
  moment: the record it appends and the entries it leaves (\<open>resolve\<close> and \<open>cacheStep\<close>,
  on the mapping; \<open>objStep\<close>, on the value kept in \<open>cached\<close>), and, for a list of URLs
  in turn, the records, the cache at the end, the pages requested and whether no turn
  throws.
\<close>

definition resolve :: "env \<Rightarrow> (string \<rightharpoonup> detail) \<Rightarrow> string \<Rightarrow> detail" where
  "resolve e c url =
     (case c url of
        Some info \<Rightarrow> ensureDetailUrl url info
      | None \<Rightarrow>
          (case page e url of
             Inl message \<Rightarrow> errorRecord message
           | Inr html \<Rightarrow> (parseDetail html)\<lparr>detailUrl := Some url\<rparr>))"

definition cacheStep :: "env \<Rightarrow> (string \<rightharpoonup> detail) \<Rightarrow> string \<Rightarrow> (string \<rightharpoonup> detail)" where
  "cacheStep e c url =
     (case c url of
        Some info \<Rightarrow> c(url \<mapsto> ensureDetailUrl url info)
      | None \<Rightarrow>
          (case page e url of
             Inl message \<Rightarrow> c
           | Inr html \<Rightarrow> c(url \<mapsto> (parseDetail html)\<lparr>detailUrl := Some url\<rparr>)))"

definition objStep :: "env \<Rightarrow> cacheObject \<Rightarrow> string \<Rightarrow> cacheObject" where
  "objStep e c url =
     (case lookupCache c url of
        Some info \<Rightarrow> storeCache c url (ensureDetailUrl url info)
      | None \<Rightarrow>
          (case page e url of
             Inl message \<Rightarrow> c
           | Inr html \<Rightarrow> storeCache c url ((parseDetail html)\<lparr>detailUrl := Some url\<rparr>)))"

fun resolveAll :: "env \<Rightarrow> cacheObject \<Rightarrow> string list \<Rightarrow> detail list" where
  "resolveAll e c [] = []"
| "resolveAll e c (u # us) = resolve e (lookupCache c) u # resolveAll e (objStep e c u) us"

fun cacheAfter :: "env \<Rightarrow> cacheObject \<Rightarrow> string list \<Rightarrow> cacheObject" where
  "cacheAfter e c [] = c"
| "cacheAfter e c (u # us) = cacheAfter e (objStep e c u) us"

fun fetchedAll :: "env \<Rightarrow> cacheObject \<Rightarrow> string list \<Rightarrow> string list" where
  "fetchedAll e c [] = []"
| "fetchedAll e c (u # us) =
     (if lookupCache c u = None then [u] else []) @ fetchedAll e (objStep e c u) us"

fun allGood :: "env \<Rightarrow> cacheObject \<Rightarrow> string list \<Rightarrow> bool" where
  "allGood e c [] = True"
| "allGood e c (u # us) =
     ((case lookupCache c u of Some info \<Rightarrow> \<not> unclassed info | None \<Rightarrow> True)
      \<and> allGood e (objStep e c u) us)"

text \<open>
  The value processName starts from in \<open>cached\<close>, what it holds for each URL, and the URLs
  of the links of a search page.
\<close>

definition loaded :: "string \<Rightarrow> world \<Rightarrow> cacheObject" where
  "loaded name w = fst (loadCache name w)"

definition cachedFor :: "string \<Rightarrow> world \<Rightarrow> (string \<rightharpoonup> detail)" where
  "cachedFor name w = lookupCache (loaded name w)"

definition detailUrls :: "string \<Rightarrow> string list" where
  "detailUrls searchHtml = map ((@) baseUrl) (extractDetailLinks searchHtml)"

definition verdict :: "detail list \<Rightarrow> string \<times> string" where
  "verdict ds =
     (if \<not> hasLiveIn ds then
        (''Green'', ''No live trademark registrations were found for this name.'')
      else if hasRedClassIn ds then
        (''Red'', ''At least one live filing lists classes 009, 028 or 041.'')
      else (''Yellow'', ''Live filings exist, but none contain 009, 028 or 041.''))"

text \<open>
  The classification alone: the \<open>if (info.status === 'LIVE')\<close> block of the loop applied to
  the records of a list in turn, from both flags false, then the score and the explanation
  chosen from the flags.
\<close>

fun noteAll :: "detail list \<Rightarrow> locals \<Rightarrow> string + locals" where
  "noteAll [] v = Inr v"
| "noteAll (d # ds) v = (case noteLive d v of Inl message \<Rightarrow> Inl message | Inr v1 \<Rightarrow> noteAll ds v1)"

definition classify :: "detail list \<Rightarrow> string + string \<times> string" where
  "classify ds =
     (case noteAll ds
        \<lparr>detailsV = ds, hasLive = False, hasRedMark = False, cached = ObjectValue Map.empty\<rparr> of
        Inl message \<Rightarrow> Inl message
      | Inr v \<Rightarrow> Inr (score (summary v), explanation (summary v)))"

text \<open>
  An example: the search page of the name \<open>x\<close> lists two detail pages; the first is live
  and of class 028, the second cannot be fetched. Every file can be written, and no cache
  file exists yet.
\<close>

definition searchPage0 :: string where
  "searchPage0 =
     ''<a href=/australia/trademark/trademark-detail/1/a> <a href=/australia/trademark/trademark-detail/2/b>''"

definition urlA :: string where
  "urlA = ''https://www.trademarkelite.com/australia/trademark/trademark-detail/1/a''"

definition urlB :: string where
  "urlB = ''https://www.trademarkelite.com/australia/trademark/trademark-detail/2/b''"

definition env0 :: env where
  "env0 =
     \<lparr>page = (\<lambda>u. if u = searchUrl ''x'' then Inr searchPage0
                  else if u = urlA then Inr ''<p> LIVE </p> Class 028''
                  else Inl ''fetch failed''),
      writeFile = (\<lambda>f. Written)\<rparr>"

definition world0 :: world where
  "world0 = \<lparr>files = Map.empty, effects = []\<rparr>"

text \<open>
  A cache file of the name \<open>x\<close> as an older writer could have left it: the record of the
  first detail page has a status and no other property.
\<close>

definition world8 :: world where
  "world8 =
     \<lparr>files =
        [cacheFile ''x'' \<mapsto> Parsed (StoredObject [urlA \<mapsto> emptyObject\<lparr>status := Some ''LIVE''\<rparr>])],
      effects = []\<rparr>"

text \<open>
  A cache file of the name \<open>x\<close> that has a string under \<open>detailCache\<close>.
\<close>

definition worldString :: world where
  "worldString = \<lparr>files = [cacheFile ''x'' \<mapsto> Parsed StoredPrimitive], effects = []\<rparr>"

text \<open>
  A cache file of the name \<open>x\<close> that holds, for the second detail page of the example, a
  live record of class 009 without a \<open>detailUrl\<close>.
\<close>

definition world1 :: world where
  "world1 =
     \<lparr>files =
        [cacheFile ''x'' \<mapsto>
           Parsed (StoredObject
             [urlB \<mapsto> emptyObject\<lparr>status := Some ''LIVE'', classes := Some [''009'']\<rparr>])],
      effects = []\<rparr>"

text \<open>
  The pages of the example where every write of a cache file fails after the file was
  opened.
\<close>

definition envTruncating :: env where
  "envTruncating = env0\<lparr>writeFile := (\<lambda>f. Truncated)\<rparr>"

text \<open>The names of a batch with the outcome of each, in the order of the calls.\<close>

fun outcomes :: "env \<Rightarrow> string list \<Rightarrow> world \<Rightarrow> (string \<times> (string + searchResult)) list" where
  "outcomes e [] w = []"
| "outcomes e (n # ns) w =
     (n, fst (processName e n w)) # outcomes e ns (snd (processName e n w))"

section \<open>The link extractor\<close>

lemma lit_Some: "lit p s = Some r \<Longrightarrow> \<exists>m. s = m @ r \<and> map upperChar p = map upperChar m"
proof (induction p s rule: lit.induct)
  case (1 s)
  then show ?case by simp
next
  case (2 p ps)
  then show ?case by simp
next
  case (3 p ps c cs)
  from "3.prems" have eq: "ciEq p c" and rest: "lit ps cs = Some r"
    by (auto split: if_splits)
  from "3.IH" [OF eq rest] obtain m where "cs = m @ r" "map upperChar ps = map upperChar m"
    by blast
  then have "c # cs = (c # m) @ r \<and> map upperChar (p # ps) = map upperChar (c # m)"
    using eq by (simp add: ciEq_def)
  then show ?case by blast
qed

lemma lit_complete: "map upperChar p = map upperChar m \<Longrightarrow> lit p (m @ r) = Some r"
proof (induction p arbitrary: m)
  case Nil
  then show ?case by simp
next
  case (Cons a p)
  then obtain c m' where m: "m = c # m'" by (cases m) auto
  with Cons show ?case by (simp add: ciEq_def)
qed

lemma linkAt_Some:
  assumes "linkAt s = Some (m, rest)"
  shows "s = m @ rest \<and> isDetailPath m"
proof -
  from assms obtain r1 where r1: "lit ''/australia/trademark/trademark-detail/'' s = Some r1"
    by (auto simp: linkAt_def split: option.splits)
  from assms r1 have ds: "takeWhile isDigit r1 \<noteq> []"
    by (auto simp: linkAt_def split: if_splits)
  from assms r1 ds obtain c r2 where r2: "dropWhile isDigit r1 = c # r2"
    by (auto simp: linkAt_def split: list.splits)
  from assms r1 ds r2 have c: "c = CHR ''/''" and slug: "takeWhile slugChar r2 \<noteq> []"
    and m: "m = matched s (dropWhile slugChar r2)" and rest: "rest = dropWhile slugChar r2"
    by (auto simp: linkAt_def split: if_splits)
  from lit_Some [OF r1] obtain pre where pre: "s = pre @ r1"
    "map upperChar ''/australia/trademark/trademark-detail/'' = map upperChar pre"
    by blast
  define ds where "ds = takeWhile isDigit r1"
  define slug where "slug = takeWhile slugChar r2"
  have "takeWhile isDigit r1 @ dropWhile isDigit r1 = r1" by simp
  then have a: "r1 = ds @ CHR ''/'' # r2"
    unfolding r2 c ds_def by simp
  have b: "r2 = slug @ rest"
    unfolding rest slug_def by simp
  have ds': "ds \<noteq> []" "list_all isDigit ds"
    using ds by (auto simp: ds_def list_all_iff dest: set_takeWhileD)
  have slug': "slug \<noteq> []" "list_all slugChar slug"
    using slug by (auto simp: slug_def list_all_iff dest: set_takeWhileD)
  have s_eq: "s = (pre @ ds @ ''/'' @ slug) @ rest"
    by (simp add: pre(1) a b)
  have m_eq: "m = pre @ ds @ ''/'' @ slug"
    unfolding m matched_def rest [symmetric] by (subst (2) s_eq, subst s_eq) simp
  have "isDetailPath m"
    unfolding isDetailPath_def m_eq
    using pre(2) ds' slug'
    by (intro exI [of _ pre] exI [of _ ds] exI [of _ slug]) simp
  with s_eq m_eq show ?thesis by simp
qed

lemma globalMatch_occurs:
  "(\<And>s m r. at s = Some (m, r) \<Longrightarrow> s = m @ r \<and> P m) \<Longrightarrow> x \<in> set (globalMatch at s) \<Longrightarrow>
   P x \<and> (\<exists>a b. s = a @ x @ b)"
proof (induction at s rule: globalMatch.induct)
  case (1 at)
  then show ?case by simp
next
  case (2 at c cs)
  note spec = "2.prems"(1)
  note mem = "2.prems"(2)
  show ?case
  proof (cases "at (c # cs)")
    case None
    with mem have "x \<in> set (globalMatch at cs)" by simp
    with "2.IH"(1) [OF None spec] obtain a b where "P x" "cs = a @ x @ b" by blast
    then have "c # cs = (c # a) @ x @ b" by simp
    with \<open>P x\<close> show ?thesis by blast
  next
    case (Some mr)
    obtain m rest where mr: "mr = (m, rest)" by (cases mr)
    from spec [of "c # cs" m rest] Some mr have split: "c # cs = m @ rest" and Pm: "P m" by auto
    have here: "P m \<and> (\<exists>a b. c # cs = a @ m @ b)"
      using split Pm by (intro conjI exI [of _ "[]"] exI [of _ rest]) simp_all
    show ?thesis
    proof (cases "length rest \<le> length cs")
      case True
      with mem Some mr have "x = m \<or> x \<in> set (globalMatch at rest)" by auto
      then show ?thesis
      proof
        assume "x = m"
        with here show ?thesis by simp
      next
        assume "x \<in> set (globalMatch at rest)"
        with "2.IH"(2) [OF Some mr [symmetric] True spec] obtain a b where "P x" "rest = a @ x @ b"
          by blast
        with split have "c # cs = (m @ a) @ x @ b" by simp
        with \<open>P x\<close> show ?thesis by blast
      qed
    next
      case False
      with mem Some mr have "x = m \<or> x \<in> set (globalMatch at cs)" by auto
      then show ?thesis
      proof
        assume "x = m"
        with here show ?thesis by simp
      next
        assume "x \<in> set (globalMatch at cs)"
        with "2.IH"(3) [OF Some mr [symmetric] False spec] obtain a b where "P x" "cs = a @ x @ b"
          by blast
        then have "c # cs = (c # a) @ x @ b" by simp
        with \<open>P x\<close> show ?thesis by blast
      qed
    qed
  qed
qed

lemma globalMatch_none: "(\<And>k. at (drop k s) = None) \<Longrightarrow> globalMatch at s = []"
proof (induction s)
  case Nil
  then show ?case by simp
next
  case (Cons c cs)
  from Cons.prems [of 0] have "at (c # cs) = None" by simp
  moreover have "globalMatch at cs = []"
  proof (rule Cons.IH)
    fix k show "at (drop k cs) = None" using Cons.prems [of "Suc k"] by simp
  qed
  ultimately show ?case by simp
qed

lemma remdups_drop_seen: "x \<in> set zs \<Longrightarrow> remdups (ys @ x # zs) = remdups (ys @ zs)"
  by (induction ys) auto

lemma foldl_setAdd: "distinct acc \<Longrightarrow> foldl setAdd acc xs = rev (remdups (rev (acc @ xs)))"
proof (induction xs arbitrary: acc)
  case Nil
  then show ?case by (simp add: distinct_remdups_id)
next
  case (Cons x xs)
  show ?case
  proof (cases "x \<in> set acc")
    case True
    then have "foldl setAdd acc (x # xs) = foldl setAdd acc xs" by (simp add: setAdd_def)
    also have "\<dots> = rev (remdups (rev (acc @ xs)))" using Cons by simp
    also have "\<dots> = rev (remdups (rev (acc @ x # xs)))"
      using True remdups_drop_seen [of x "rev acc" "rev xs"] by simp
    finally show ?thesis .
  next
    case False
    then have "foldl setAdd acc (x # xs) = foldl setAdd (acc @ [x]) xs" by (simp add: setAdd_def)
    also have "\<dots> = rev (remdups (rev ((acc @ [x]) @ xs)))"
      using Cons.prems False by (intro Cons.IH) simp
    finally show ?thesis by simp
  qed
qed

lemma arrayFromSet_first: "arrayFromSet xs = rev (remdups (rev xs))"
  using foldl_setAdd [of "[]" xs] by (simp add: arrayFromSet_def)

lemma isDetailPath_nonempty: "isDetailPath m \<Longrightarrow> m \<noteq> []"
  by (auto simp: isDetailPath_def)

lemma linkAt_match:
  assumes "linkAt s = Some (m, rest)"
  shows "s = m @ rest \<and> linkMatch m rest"
proof -
  from assms obtain r1 where r1: "lit ''/australia/trademark/trademark-detail/'' s = Some r1"
    by (auto simp: linkAt_def split: option.splits)
  from assms r1 have ds: "takeWhile isDigit r1 \<noteq> []"
    by (auto simp: linkAt_def split: if_splits)
  from assms r1 ds obtain c r2 where r2: "dropWhile isDigit r1 = c # r2"
    by (auto simp: linkAt_def split: list.splits)
  from assms r1 ds r2 have rest: "rest = dropWhile slugChar r2"
    by (auto simp: linkAt_def split: if_splits)
  have "rest = [] \<or> \<not> slugChar (hd rest)"
    unfolding rest using hd_dropWhile [of slugChar r2] by blast
  with linkAt_Some [OF assms] show ?thesis by (simp add: linkMatch_def)
qed

lemma linkAt_complete:
  assumes "linkMatch m rest"
  shows "linkAt (m @ rest) = Some (m, rest)"
proof -
  from assms have path: "isDetailPath m" and greedy: "rest = [] \<or> \<not> slugChar (hd rest)"
    unfolding linkMatch_def by blast+
  from path obtain pre ds slug where m: "m = pre @ ds @ ''/'' @ slug"
    and pre: "map upperChar pre = map upperChar ''/australia/trademark/trademark-detail/''"
    and ds: "ds \<noteq> []" "list_all isDigit ds" and slug: "slug \<noteq> []" "list_all slugChar slug"
    unfolding isDetailPath_def by blast
  have l: "lit ''/australia/trademark/trademark-detail/'' (m @ rest) = Some (ds @ CHR ''/'' # slug @ rest)"
    unfolding m using lit_complete [OF pre [symmetric], of "ds @ CHR ''/'' # slug @ rest"] by simp
  have notDigit: "\<not> isDigit (CHR ''/'')" by (simp add: isDigit_def)
  have tw: "takeWhile isDigit (ds @ CHR ''/'' # slug @ rest) = ds"
    using ds(2) notDigit by (simp add: takeWhile_append2 list_all_iff)
  have dw: "dropWhile isDigit (ds @ CHR ''/'' # slug @ rest) = CHR ''/'' # slug @ rest"
    using ds(2) notDigit by (simp add: dropWhile_append2 list_all_iff)
  have stop: "takeWhile slugChar rest = []" "dropWhile slugChar rest = rest"
    using greedy by (cases rest; simp)+
  have tws: "takeWhile slugChar (slug @ rest) = slug"
    using slug(2) stop by (simp add: takeWhile_append2 list_all_iff)
  have dws: "dropWhile slugChar (slug @ rest) = rest"
    using slug(2) stop by (simp add: dropWhile_append2 list_all_iff)
  have "matched (m @ rest) rest = m" by (simp add: matched_def)
  then show ?thesis
    unfolding linkAt_def l by (simp add: tw dw tws dws ds(1) slug(1))
qed

lemma linkAt_None_iff: "linkAt s = None \<longleftrightarrow> \<not> linkStarts s"
proof
  assume none: "linkAt s = None"
  show "\<not> linkStarts s"
  proof
    assume "linkStarts s"
    then obtain m rest where "s = m @ rest" "linkMatch m rest" by (auto simp: linkStarts_def)
    with linkAt_complete [of m rest] none show False by simp
  qed
next
  assume no: "\<not> linkStarts s"
  show "linkAt s = None"
  proof (cases "linkAt s")
    case None
    then show ?thesis .
  next
    case (Some mr)
    obtain m rest where "mr = (m, rest)" by (cases mr)
    with Some linkAt_match [of s m rest] no show ?thesis by (auto simp: linkStarts_def)
  qed
qed

lemma occurrences_skip:
  assumes "\<not> linkStarts (c # cs)" and "occurrences cs ms"
  shows "occurrences (c # cs) ms"
  using assms(2)
proof (cases rule: occurrences.cases)
  case occurrences_none
  have "\<not> linkStarts (drop k (c # cs))" for k
    using assms(1) occurrences_none(2) by (cases k) simp_all
  with occurrences_none(1) show ?thesis by (simp add: occurrences.occurrences_none)
next
  case (occurrences_next gap m rest ms')
  have cut: "c # cs = (c # gap) @ m @ rest" using occurrences_next(2) by simp
  have "\<not> linkStarts (drop j (c # cs))" if "j < length (c # gap)" for j
    using that assms(1) occurrences_next(4) by (cases j) simp_all
  then have "\<forall>j < length (c # gap). \<not> linkStarts (drop j (c # cs))" by blast
  from occurrences.occurrences_next [OF cut occurrences_next(3) this occurrences_next(5)]
  show ?thesis using occurrences_next(1) by simp
qed

lemma occurrences_globalMatch: "occurrences s (globalMatch linkAt s)"
proof (induction "length s" arbitrary: s rule: less_induct)
  case less
  show ?case
  proof (cases s)
    case Nil
    have "\<not> linkStarts (drop k [])" for k
      using linkAt_None_iff [of "[]"] by (simp add: linkAt_def)
    then show ?thesis using Nil by (simp add: occurrences_none)
  next
    case (Cons c cs)
    show ?thesis
    proof (cases "linkAt (c # cs)")
      case None
      then have "\<not> linkStarts (c # cs)" by (simp add: linkAt_None_iff)
      moreover have "occurrences cs (globalMatch linkAt cs)"
        using less [of cs] Cons by simp
      ultimately have "occurrences (c # cs) (globalMatch linkAt cs)" by (rule occurrences_skip)
      with None Cons show ?thesis by simp
    next
      case (Some mr)
      obtain m rest where mr: "mr = (m, rest)" by (cases mr)
      from linkAt_match [of "c # cs" m rest] Some mr
      have cut: "c # cs = m @ rest" and lm: "linkMatch m rest" by simp_all
      from lm have "m \<noteq> []" by (simp add: linkMatch_def isDetailPath_nonempty)
      with cut have shorter: "length rest \<le> length cs"
        by (cases m) (auto simp: Cons_eq_append_conv)
      then have "length rest < length s" using Cons by simp
      from less [OF this] have tail: "occurrences rest (globalMatch linkAt rest)" .
      have "c # cs = [] @ m @ rest" using cut by simp
      from occurrences_next [OF this lm _ tail]
      have "occurrences (c # cs) (m # globalMatch linkAt rest)" by simp
      with Some mr shorter Cons show ?thesis by simp
    qed
  qed
qed

lemma globalMatch_gap:
  "\<forall>j < length gap. linkAt (drop j (gap @ t)) = None \<Longrightarrow>
   globalMatch linkAt (gap @ t) = globalMatch linkAt t"
proof (induction gap)
  case Nil
  then show ?case by simp
next
  case (Cons c gap)
  from Cons.prems have here: "linkAt (c # gap @ t) = None" by force
  have "\<forall>j < length gap. linkAt (drop j (gap @ t)) = None"
  proof (intro allI impI)
    fix j assume "j < length gap"
    with Cons.prems have "linkAt (drop (Suc j) ((c # gap) @ t)) = None" by force
    then show "linkAt (drop j (gap @ t)) = None" by simp
  qed
  with Cons.IH here show ?case by simp
qed

lemma globalMatch_unique: "occurrences s ms \<Longrightarrow> ms = globalMatch linkAt s"
proof (induction rule: occurrences.induct)
  case (occurrences_none s)
  then have "linkAt (drop k s) = None" for k by (simp add: linkAt_None_iff)
  then show ?case by (simp add: globalMatch_none)
next
  case (occurrences_next s gap m rest ms)
  have "\<forall>j < length gap. linkAt (drop j (gap @ m @ rest)) = None"
    using occurrences_next.hyps(1,3) by (simp add: linkAt_None_iff)
  then have skip: "globalMatch linkAt s = globalMatch linkAt (m @ rest)"
    unfolding occurrences_next.hyps(1) by (rule globalMatch_gap)
  from occurrences_next.hyps(2) have "m \<noteq> []" by (simp add: linkMatch_def isDetailPath_nonempty)
  then obtain c cs where m: "m = c # cs" by (cases m) auto
  have "linkAt ((c # cs) @ rest) = Some (c # cs, rest)"
    using linkAt_complete [OF occurrences_next.hyps(2)] m by simp
  then have "globalMatch linkAt (m @ rest) = m # globalMatch linkAt rest"
    by (simp add: m)
  with skip occurrences_next.IH show ?case by simp
qed

lemma arrayFromSet_snoc: "arrayFromSet (ms @ [x]) = setAdd (arrayFromSet ms) x"
  by (simp add: arrayFromSet_def)

lemma set_arrayFromSet: "set (arrayFromSet ms) = set ms"
  by (simp add: arrayFromSet_first)

lemma firstIndex_snoc_old: "y \<in> set ms \<Longrightarrow> firstIndex (ms @ [x]) y = firstIndex ms y"
  by (simp add: firstIndex_def takeWhile_append1)

lemma firstIndex_less: "y \<in> set ms \<Longrightarrow> firstIndex ms y < length ms"
  unfolding firstIndex_def by (induction ms) auto

lemma firstIndex_snoc_new: "x \<notin> set ms \<Longrightarrow> firstIndex (ms @ [x]) x = length ms"
  unfolding firstIndex_def by (induction ms) auto

lemma arrayFromSet_order: "sorted_wrt (<) (map (firstIndex ms) (arrayFromSet ms))"
proof (induction ms rule: rev_induct)
  case Nil
  then show ?case by (simp add: arrayFromSet_def)
next
  case (snoc x ms)
  have old: "map (firstIndex (ms @ [x])) (arrayFromSet ms) = map (firstIndex ms) (arrayFromSet ms)"
    by (rule map_cong [OF refl]) (simp add: set_arrayFromSet firstIndex_snoc_old)
  show ?case
  proof (cases "x \<in> set ms")
    case True
    then show ?thesis
      by (simp add: arrayFromSet_snoc setAdd_def set_arrayFromSet old snoc.IH)
  next
    case False
    have "\<forall>y \<in> set (arrayFromSet ms). firstIndex ms y < length ms"
      by (simp add: set_arrayFromSet firstIndex_less)
    with False show ?thesis
      by (simp add: arrayFromSet_snoc setAdd_def set_arrayFromSet old snoc.IH
          sorted_wrt_append firstIndex_snoc_new)
  qed
qed

text \<open>
  C4: the markup has one list of occurrences of the pattern, from left to right. The result
  holds exactly the paths that occur, each once, in the order of their first occurrences
  in the markup: it is the list of the occurrences with the later duplicates removed. Each
  returned path has the shape of a detail-page path and stands in the markup. The empty
  input and an input in which the pattern matches nowhere give the empty list.
\<close>

theorem extractDetailLinks_spec:
  "(\<exists>ms. occurrences html ms)
   \<and> (\<forall>ms. occurrences html ms \<longrightarrow>
        set (extractDetailLinks html) = set ms
        \<and> sorted_wrt (<) (map (firstIndex ms) (extractDetailLinks html))
        \<and> extractDetailLinks html = rev (remdups (rev ms)))
   \<and> extractDetailLinks html = rev (remdups (rev (globalMatch linkAt html)))
   \<and> distinct (extractDetailLinks html)
   \<and> (\<forall>p \<in> set (extractDetailLinks html). isDetailPath p \<and> (\<exists>a b. html = a @ p @ b))
   \<and> extractDetailLinks [] = []
   \<and> ((\<forall>k. \<not> linkStarts (drop k html)) \<longrightarrow> extractDetailLinks html = [])
   \<and> ((\<forall>k. linkAt (drop k html) = None) \<longrightarrow> extractDetailLinks html = [])"
proof -
  have first: "extractDetailLinks html = rev (remdups (rev (globalMatch linkAt html)))"
    by (simp add: extractDetailLinks_def arrayFromSet_first)
  have ex: "\<exists>ms. occurrences html ms"
    using occurrences_globalMatch [of html] by blast
  have all: "\<forall>ms. occurrences html ms \<longrightarrow>
        set (extractDetailLinks html) = set ms
        \<and> sorted_wrt (<) (map (firstIndex ms) (extractDetailLinks html))
        \<and> extractDetailLinks html = rev (remdups (rev ms))"
  proof (intro allI impI)
    fix ms assume "occurrences html ms"
    then have ms: "ms = globalMatch linkAt html" by (rule globalMatch_unique)
    have "sorted_wrt (<) (map (firstIndex ms) (arrayFromSet ms))" by (rule arrayFromSet_order)
    then show "set (extractDetailLinks html) = set ms
        \<and> sorted_wrt (<) (map (firstIndex ms) (extractDetailLinks html))
        \<and> extractDetailLinks html = rev (remdups (rev ms))"
      by (simp add: ms extractDetailLinks_def set_arrayFromSet arrayFromSet_first)
  qed
  have "set (extractDetailLinks html) = set (globalMatch linkAt html)"
    by (simp add: first)
  then have paths: "\<forall>p \<in> set (extractDetailLinks html). isDetailPath p \<and> (\<exists>a b. html = a @ p @ b)"
    using globalMatch_occurs [of linkAt isDetailPath _ html] linkAt_Some by blast
  have none: "(\<forall>k. linkAt (drop k html) = None) \<longrightarrow> extractDetailLinks html = []"
    using globalMatch_none [of linkAt html] by (simp add: first)
  then have none': "(\<forall>k. \<not> linkStarts (drop k html)) \<longrightarrow> extractDetailLinks html = []"
    by (simp add: linkAt_None_iff)
  have empty: "extractDetailLinks [] = []"
    by (simp add: extractDetailLinks_def arrayFromSet_def)
  have dist: "distinct (extractDetailLinks html)" by (simp add: first)
  from ex all first dist paths empty none' none show ?thesis by blast
qed

theorem extractDetailLinks_spec_witness:
  "occurrences
     ''<a href=/australia/trademark/trademark-detail/2/b> <a href=/australia/trademark/trademark-detail/1/a> <a href=/australia/trademark/trademark-detail/2/b>''
     [''/australia/trademark/trademark-detail/2/b'', ''/australia/trademark/trademark-detail/1/a'',
      ''/australia/trademark/trademark-detail/2/b'']
   \<and> extractDetailLinks
       ''<a href=/australia/trademark/trademark-detail/2/b> <a href=/australia/trademark/trademark-detail/1/a> <a href=/australia/trademark/trademark-detail/2/b>''
     = [''/australia/trademark/trademark-detail/2/b'', ''/australia/trademark/trademark-detail/1/a'']
   \<and> isDetailPath ''/australia/trademark/trademark-detail/1/a''
   \<and> (\<forall>k. \<not> linkStarts (drop k ''x'')) \<and> extractDetailLinks ''x'' = []"
proof -
  let ?html = "''<a href=/australia/trademark/trademark-detail/2/b> <a href=/australia/trademark/trademark-detail/1/a> <a href=/australia/trademark/trademark-detail/2/b>''"
  let ?a = "''/australia/trademark/trademark-detail/1/a''"
  let ?b = "''/australia/trademark/trademark-detail/2/b''"
  have "globalMatch linkAt ?html = [?b, ?a, ?b]" by code_simp
  with occurrences_globalMatch [of ?html] have occ: "occurrences ?html [?b, ?a, ?b]" by simp
  with extractDetailLinks_spec [of ?html]
  have "extractDetailLinks ?html = rev (remdups (rev [?b, ?a, ?b]))" by blast
  then have res: "extractDetailLinks ?html = [?b, ?a]" by simp
  with extractDetailLinks_spec [of ?html] have path: "isDetailPath ?a" by simp
  have "linkAt (drop k ''x'') = None" for k
    by (cases k) (simp_all add: linkAt_def)
  then have none: "\<forall>k. \<not> linkStarts (drop k ''x'')" by (simp add: linkAt_None_iff)
  with extractDetailLinks_spec [of "''x''"] have "extractDetailLinks ''x'' = []" by blast
  with occ res path none show ?thesis by blast
qed

section \<open>The detail parser\<close>

lemma firstMatch_iff: "firstMatch at s \<noteq> None \<longleftrightarrow> (\<exists>pre suf. s = pre @ suf \<and> at suf \<noteq> None)"
proof (induction s)
  case Nil
  then show ?case by simp
next
  case (Cons c cs)
  show ?case
  proof (cases "at (c # cs)")
    case None
    have "(\<exists>pre suf. c # cs = pre @ suf \<and> at suf \<noteq> None) \<longleftrightarrow> (\<exists>pre suf. cs = pre @ suf \<and> at suf \<noteq> None)"
    proof
      assume "\<exists>pre suf. c # cs = pre @ suf \<and> at suf \<noteq> None"
      then obtain pre suf where ps: "c # cs = pre @ suf" "at suf \<noteq> None" by blast
      with None obtain pre' where "pre = c # pre'" by (cases pre) auto
      with ps show "\<exists>pre suf. cs = pre @ suf \<and> at suf \<noteq> None" by auto
    next
      assume "\<exists>pre suf. cs = pre @ suf \<and> at suf \<noteq> None"
      then obtain pre suf where "cs = pre @ suf" "at suf \<noteq> None" by blast
      then have "c # cs = (c # pre) @ suf \<and> at suf \<noteq> None" by simp
      then show "\<exists>pre suf. c # cs = pre @ suf \<and> at suf \<noteq> None" by blast
    qed
    with None Cons show ?thesis by simp
  next
    case (Some r)
    then have "c # cs = [] @ (c # cs) \<and> at (c # cs) \<noteq> None" by simp
    then have "\<exists>pre suf. c # cs = pre @ suf \<and> at suf \<noteq> None" by blast
    with Some show ?thesis by simp
  qed
qed

lemma spacedWordAt_iff:
  "spacedWordAt w s \<noteq> None \<longleftrightarrow>
   (\<exists>a m b post. s = a # m @ b # post \<and> isSpace a \<and> isSpace b \<and> map upperChar m = map upperChar w)"
proof
  assume "spacedWordAt w s \<noteq> None"
  then obtain a r where s: "s = a # r" and a: "isSpace a"
    by (auto simp: spacedWordAt_def split: list.splits if_splits)
  with \<open>spacedWordAt w s \<noteq> None\<close> obtain b post where l: "lit w r = Some (b # post)" and b: "isSpace b"
    by (auto simp: spacedWordAt_def split: option.splits list.splits if_splits)
  from lit_Some [OF l] obtain m where "r = m @ b # post" "map upperChar w = map upperChar m"
    by blast
  with s a b show "\<exists>a m b post. s = a # m @ b # post \<and> isSpace a \<and> isSpace b \<and> map upperChar m = map upperChar w"
    by auto
next
  assume "\<exists>a m b post. s = a # m @ b # post \<and> isSpace a \<and> isSpace b \<and> map upperChar m = map upperChar w"
  then obtain a m b post where s: "s = a # m @ b # post" and ab: "isSpace a" "isSpace b"
    and m: "map upperChar m = map upperChar w" by blast
  from m have "lit w (m @ b # post) = Some (b # post)" by (intro lit_complete) simp
  with s ab show "spacedWordAt w s \<noteq> None" by (simp add: spacedWordAt_def)
qed

lemma test_spacedWordAt: "test (spacedWordAt w) s = spacedWord w s"
proof -
  have "test (spacedWordAt w) s \<longleftrightarrow>
        (\<exists>pre suf. s = pre @ suf \<and> (\<exists>a m b post. suf = a # m @ b # post \<and> isSpace a \<and> isSpace b
           \<and> map upperChar m = map upperChar w))"
    unfolding test_def firstMatch_iff spacedWordAt_iff ..
  also have "\<dots> \<longleftrightarrow> spacedWord w s"
    unfolding spacedWord_def by metis
  finally show ?thesis .
qed

lemma status_parseDetail: "status (parseDetail html) = Some (parseStatus html)"
  by (simp add: parseDetail_def split: prod.splits)

text \<open>
  C5, as the code has it: the status is \<open>LIVE\<close> when the markup holds the word LIVE, in any
  letter case, right after a white-space character and right before another one; otherwise
  \<open>DEAD\<close> when it holds DEAD so; otherwise the empty string.
\<close>

theorem parseDetail_status:
  "status (parseDetail html) =
     Some (if spacedWord ''LIVE'' html then ''LIVE''
           else if spacedWord ''DEAD'' html then ''DEAD''
           else [])"
  by (simp add: status_parseDetail parseStatus_def test_spacedWordAt)

text \<open>
  C5 as stated fails: in \<open><td>LIVE</td>\<close> the word LIVE stands as a whole word, between
  \<open>>\<close> and \<open><\<close>, and the status is empty; so it is when the markup ends with the word.
\<close>

theorem parseDetail_status_whole_word_counterexample:
  "wholeWord ''LIVE'' ''<td>LIVE</td>'' \<and> status (parseDetail ''<td>LIVE</td>'') = Some []
   \<and> wholeWord ''LIVE'' ''Status: LIVE'' \<and> status (parseDetail ''Status: LIVE'') = Some []"
proof -
  have "''<td>LIVE</td>'' = ''<td>'' @ ''LIVE'' @ ''</td>''
        \<and> map upperChar ''LIVE'' = map upperChar ''LIVE''
        \<and> (''<td>'' = [] \<or> \<not> wordChar (last ''<td>''))
        \<and> (''</td>'' = [] \<or> \<not> wordChar (hd ''</td>''))"
    by (simp add: wordChar_def)
  then have tags: "wholeWord ''LIVE'' ''<td>LIVE</td>''"
    unfolding wholeWord_def by blast
  have "''Status: LIVE'' = ''Status: '' @ ''LIVE'' @ []
        \<and> map upperChar ''LIVE'' = map upperChar ''LIVE''
        \<and> (''Status: '' = [] \<or> \<not> wordChar (last ''Status: ''))
        \<and> ([] = [] \<or> \<not> wordChar (hd []))"
    by (simp add: wordChar_def)
  then have ending: "wholeWord ''LIVE'' ''Status: LIVE''"
    unfolding wholeWord_def by blast
  have "parseStatus ''<td>LIVE</td>'' = []" "parseStatus ''Status: LIVE'' = []"
    by code_simp+
  with tags ending show ?thesis by (simp add: status_parseDetail)
qed

lemma owner_fields:
  "parseOwner html = (name, address) \<Longrightarrow>
   ownerName (parseDetail html) = Some name \<and> ownerAddress (parseDetail html) = Some address
   \<and> owner (parseDetail html) = Some (if address \<noteq> [] then name @ '', '' @ address else name)"
  by (simp add: parseDetail_def)

text \<open>
  C9: when the cell of the trademark owner holds the text
  \<open>Acme Pty Ltd -> 1 Main St, Sydney\<close>, parseDetail gives the owner name
  \<open>Acme Pty Ltd\<close>, the owner address \<open>1 Main St, Sydney\<close> and the owner
  \<open>Acme Pty Ltd, 1 Main St, Sydney\<close>.
\<close>

theorem parseDetail_owner_arrow:
  assumes "firstMatch (cellAt ownerLabel) html = Some (''Acme Pty Ltd -> 1 Main St, Sydney'', rest)"
  shows "ownerName (parseDetail html) = Some ''Acme Pty Ltd''
       \<and> ownerAddress (parseDetail html) = Some ''1 Main St, Sydney''
       \<and> owner (parseDetail html) = Some ''Acme Pty Ltd, 1 Main St, Sydney''"
proof -
  have "ownerOfCell ''Acme Pty Ltd -> 1 Main St, Sydney'' = (''Acme Pty Ltd'', ''1 Main St, Sydney'')"
    by code_simp
  then have "parseOwner html = (''Acme Pty Ltd'', ''1 Main St, Sydney'')"
    unfolding parseOwner_def assms by simp
  from owner_fields [OF this] show ?thesis by simp
qed

theorem parseDetail_owner_arrow_witness:
  "ownerName (parseDetail ''<th>Trademark Owner</th><td>Acme Pty Ltd -> 1 Main St, Sydney</td>'')
     = Some ''Acme Pty Ltd''
   \<and> owner (parseDetail ''<th>Trademark Owner</th><td>Acme Pty Ltd -> 1 Main St, Sydney</td>'')
     = Some ''Acme Pty Ltd, 1 Main St, Sydney''"
proof -
  have "firstMatch (cellAt ownerLabel) ''<th>Trademark Owner</th><td>Acme Pty Ltd -> 1 Main St, Sydney</td>''
        = Some (''Acme Pty Ltd -> 1 Main St, Sydney'', [])"
    by code_simp
  from parseDetail_owner_arrow [OF this] show ?thesis by simp
qed

section \<open>The loop over the detail links\<close>

lemma unclassed_ensureDetailUrl [simp]: "unclassed (ensureDetailUrl url info) = unclassed info"
  by (simp add: unclassed_def isLive_def ensureDetailUrl_def)

lemma classes_parseDetail: "classes (parseDetail html) = Some (parseClasses html)"
  by (simp add: parseDetail_def split: prod.splits)

lemma noteLive_unclassed: "unclassed info \<Longrightarrow> noteLive info v = Inl typeErrorMessage"
  by (simp add: noteLive_def unclassed_def isLive_def)

lemma noteLive_classed:
  "\<not> unclassed info \<Longrightarrow>
   noteLive info v =
     Inr (v\<lparr>hasLive := hasLive v \<or> isLive info, hasRedMark := hasRedMark v \<or> liveRed info\<rparr>)"
  by (cases "classes info")
     (auto simp: noteLive_def unclassed_def isLive_def liveRed_def flagged_def)

lemma classed_fresh: "\<not> unclassed ((parseDetail html)\<lparr>detailUrl := Some url\<rparr>)"
  by (simp add: unclassed_def classes_parseDetail)

lemma plain_errorRecord: "\<not> isLive (errorRecord m)" "\<not> liveRed (errorRecord m)"
  by (simp_all add: isLive_def liveRed_def errorRecord_def emptyObject_def)

lemma forLinks_good:
  "allGood e (cached v) (map ((@) baseUrl) links) \<Longrightarrow>
   forLinks e links v w =
     (Inr (v\<lparr>detailsV := detailsV v @ resolveAll e (cached v) (map ((@) baseUrl) links),
            hasLive := hasLive v \<or> list_ex isLive (resolveAll e (cached v) (map ((@) baseUrl) links)),
            hasRedMark := hasRedMark v \<or> list_ex liveRed (resolveAll e (cached v) (map ((@) baseUrl) links)),
            cached := cacheAfter e (cached v) (map ((@) baseUrl) links)\<rparr>),
      w\<lparr>effects := effects w @ map Fetch (fetchedAll e (cached v) (map ((@) baseUrl) links))\<rparr>)"
proof (induction links arbitrary: v w)
  case Nil
  then show ?case by simp
next
  case (Cons l links)
  let ?u = "baseUrl @ l"
  show ?case
  proof (cases "lookupCache (cached v) ?u")
    case (Some info0)
    let ?info = "ensureDetailUrl ?u info0"
    let ?v2 = "v\<lparr>detailsV := detailsV v @ [?info], cached := storeCache (cached v) ?u ?info,
                 hasLive := hasLive v \<or> isLive ?info, hasRedMark := hasRedMark v \<or> liveRed ?info\<rparr>"
    from Some Cons.prems have good: "\<not> unclassed ?info"
      and rest: "allGood e (cached ?v2) (map ((@) baseUrl) links)"
      by (simp_all add: objStep_def)
    have step: "forLinks e (l # links) v w = forLinks e links ?v2 w"
      using Some by (simp add: Let_def noteLive_classed [OF good])
    show ?thesis
      unfolding step Cons.IH [OF rest]
      using Some by (simp add: resolve_def objStep_def)
  next
    case None
    let ?w1 = "w\<lparr>effects := effects w @ [Fetch ?u]\<rparr>"
    show ?thesis
    proof (cases "page e ?u")
      case (Inl message)
      let ?v2 = "v\<lparr>detailsV := detailsV v @ [errorRecord message]\<rparr>"
      from Inl None Cons.prems have rest: "allGood e (cached ?v2) (map ((@) baseUrl) links)"
        by (simp add: objStep_def)
      have step: "forLinks e (l # links) v w = forLinks e links ?v2 ?w1"
        using None Inl by (simp add: fetchPage_def)
      show ?thesis
        unfolding step Cons.IH [OF rest]
        using None Inl by (simp add: resolve_def objStep_def plain_errorRecord)
    next
      case (Inr html)
      let ?info = "(parseDetail html)\<lparr>detailUrl := Some ?u\<rparr>"
      let ?v2 = "v\<lparr>detailsV := detailsV v @ [?info], cached := storeCache (cached v) ?u ?info,
                   hasLive := hasLive v \<or> isLive ?info, hasRedMark := hasRedMark v \<or> liveRed ?info\<rparr>"
      from Inr None Cons.prems have rest: "allGood e (cached ?v2) (map ((@) baseUrl) links)"
        by (simp add: objStep_def)
      have step: "forLinks e (l # links) v w = forLinks e links ?v2 ?w1"
        using None Inr by (simp add: fetchPage_def Let_def noteLive_classed [OF classed_fresh])
      show ?thesis
        unfolding step Cons.IH [OF rest]
        using None Inr by (simp add: resolve_def objStep_def)
    qed
  qed
qed

lemma forLinks_bad:
  "\<not> allGood e (cached v) (map ((@) baseUrl) links) \<Longrightarrow>
   fst (forLinks e links v w) = Inl typeErrorMessage"
proof (induction links arbitrary: v w)
  case Nil
  then show ?case by simp
next
  case (Cons l links)
  let ?u = "baseUrl @ l"
  show ?case
  proof (cases "lookupCache (cached v) ?u")
    case (Some info0)
    let ?info = "ensureDetailUrl ?u info0"
    let ?v2 = "v\<lparr>detailsV := detailsV v @ [?info], cached := storeCache (cached v) ?u ?info,
                 hasLive := hasLive v \<or> isLive ?info, hasRedMark := hasRedMark v \<or> liveRed ?info\<rparr>"
    show ?thesis
    proof (cases "unclassed info0")
      case True
      then have "unclassed ?info" by simp
      from noteLive_unclassed [OF this] Some show ?thesis by (simp add: Let_def)
    next
      case False
      then have good: "\<not> unclassed ?info" by simp
      from False Some Cons.prems
      have rest: "\<not> allGood e (cached ?v2) (map ((@) baseUrl) links)"
        by (simp add: objStep_def)
      have step: "forLinks e (l # links) v w = forLinks e links ?v2 w"
        using Some by (simp add: Let_def noteLive_classed [OF good])
      show ?thesis
        unfolding step by (rule Cons.IH [OF rest])
    qed
  next
    case None
    let ?w1 = "w\<lparr>effects := effects w @ [Fetch ?u]\<rparr>"
    show ?thesis
    proof (cases "page e ?u")
      case (Inl message)
      let ?v2 = "v\<lparr>detailsV := detailsV v @ [errorRecord message]\<rparr>"
      from Inl None Cons.prems have rest: "\<not> allGood e (cached ?v2) (map ((@) baseUrl) links)"
        by (simp add: objStep_def)
      have step: "forLinks e (l # links) v w = forLinks e links ?v2 ?w1"
        using None Inl by (simp add: fetchPage_def)
      show ?thesis
        unfolding step by (rule Cons.IH [OF rest])
    next
      case (Inr html)
      let ?info = "(parseDetail html)\<lparr>detailUrl := Some ?u\<rparr>"
      let ?v2 = "v\<lparr>detailsV := detailsV v @ [?info], cached := storeCache (cached v) ?u ?info,
                   hasLive := hasLive v \<or> isLive ?info, hasRedMark := hasRedMark v \<or> liveRed ?info\<rparr>"
      from Inr None Cons.prems have rest: "\<not> allGood e (cached ?v2) (map ((@) baseUrl) links)"
        by (simp add: objStep_def)
      have step: "forLinks e (l # links) v w = forLinks e links ?v2 ?w1"
        using None Inr by (simp add: fetchPage_def Let_def noteLive_classed [OF classed_fresh])
      show ?thesis
        unfolding step by (rule Cons.IH [OF rest])
    qed
  qed
qed

lemma forLinks_files: "files (snd (forLinks e links v w)) = files w"
proof (induction links arbitrary: v w)
  case Nil
  then show ?case by simp
next
  case (Cons l links)
  show ?case
    by (auto simp: Let_def fetchPage_def Cons.IH split: option.splits sum.splits)
qed

lemma lookup_storeCache:
  "lookupCache (storeCache c u info) x =
     (if c = PrimitiveValue then None else if x = u then Some info else lookupCache c x)"
  by (cases c) (simp_all add: lookupCache_def storeCache_def)

lemma lookup_Primitive [simp]: "lookupCache PrimitiveValue x = None"
  by (simp add: lookupCache_def)

lemma lookup_objStep_other: "x \<noteq> u \<Longrightarrow> lookupCache (objStep e c u) x = lookupCache c x"
  by (cases c) (auto simp: objStep_def lookup_storeCache split: option.splits sum.splits)

lemma lookup_objStep:
  "c \<noteq> PrimitiveValue \<Longrightarrow> lookupCache (objStep e c u) = cacheStep e (lookupCache c) u"
  by (rule ext) (auto simp: objStep_def cacheStep_def lookup_storeCache split: option.splits sum.splits)

lemma objStep_Primitive [simp]: "objStep e PrimitiveValue u = PrimitiveValue"
  by (simp add: objStep_def storeCache_def split: sum.splits)

lemma objStep_Object: "\<exists>m'. objStep e (ObjectValue m) u = ObjectValue m'"
  by (simp add: objStep_def storeCache_def split: option.splits sum.splits)

lemma objStep_Array: "\<exists>m'. objStep e (ArrayValue m) u = ArrayValue m'"
  by (simp add: objStep_def storeCache_def split: option.splits sum.splits)

lemma cacheAfter_Primitive [simp]: "cacheAfter e PrimitiveValue us = PrimitiveValue"
  by (induction us) simp_all

lemma cacheAfter_Object: "\<exists>m'. cacheAfter e (ObjectValue m) us = ObjectValue m'"
proof (induction us arbitrary: m)
  case Nil
  then show ?case by simp
next
  case (Cons u us)
  from objStep_Object [of e m u] obtain m1 where "objStep e (ObjectValue m) u = ObjectValue m1"
    by blast
  with Cons [of m1] show ?case by simp
qed

lemma cacheAfter_Array: "\<exists>m'. cacheAfter e (ArrayValue m) us = ArrayValue m'"
proof (induction us arbitrary: m)
  case Nil
  then show ?case by simp
next
  case (Cons u us)
  from objStep_Array [of e m u] obtain m1 where "objStep e (ArrayValue m) u = ArrayValue m1"
    by blast
  with Cons [of m1] show ?case by simp
qed

lemma cacheStep_apply:
  "cacheStep e c u x =
     (if x = u then
        (case c u of
           Some info \<Rightarrow> Some (ensureDetailUrl u info)
         | None \<Rightarrow> (case page e u of Inl message \<Rightarrow> None
                    | Inr html \<Rightarrow> Some ((parseDetail html)\<lparr>detailUrl := Some u\<rparr>)))
      else c x)"
  by (simp add: cacheStep_def split: option.splits sum.splits)

lemma resolveAll_cong:
  "distinct us \<Longrightarrow> (\<And>x. x \<in> set us \<Longrightarrow> lookupCache c' x = lookupCache c x) \<Longrightarrow>
   resolveAll e c' us = resolveAll e c us"
proof (induction us arbitrary: c c')
  case Nil
  then show ?case by simp
next
  case (Cons u us)
  have "resolve e (lookupCache c') u = resolve e (lookupCache c) u"
    using Cons.prems(2) [of u] by (simp add: resolve_def)
  moreover have "resolveAll e (objStep e c' u) us = resolveAll e (objStep e c u) us"
  proof (rule Cons.IH)
    show "distinct us" using Cons.prems(1) by simp
    fix x assume x: "x \<in> set us"
    with Cons.prems(1) have "x \<noteq> u" by auto
    with x Cons.prems(2) [of x]
    show "lookupCache (objStep e c' u) x = lookupCache (objStep e c u) x"
      by (simp add: lookup_objStep_other)
  qed
  ultimately show ?case by simp
qed

lemma resolveAll_distinct:
  "distinct us \<Longrightarrow> resolveAll e c us = map (resolve e (lookupCache c)) us"
proof (induction us arbitrary: c)
  case Nil
  then show ?case by simp
next
  case (Cons u us)
  have "resolveAll e (objStep e c u) us = resolveAll e c us"
  proof (rule resolveAll_cong)
    show "distinct us" using Cons.prems by simp
    fix x assume "x \<in> set us"
    with Cons.prems have "x \<noteq> u" by auto
    then show "lookupCache (objStep e c u) x = lookupCache c x" by (rule lookup_objStep_other)
  qed
  with Cons show ?case by simp
qed

lemma allGood_cong:
  "distinct us \<Longrightarrow> (\<And>x. x \<in> set us \<Longrightarrow> lookupCache c' x = lookupCache c x) \<Longrightarrow>
   allGood e c' us = allGood e c us"
proof (induction us arbitrary: c c')
  case Nil
  then show ?case by simp
next
  case (Cons u us)
  have "allGood e (objStep e c' u) us = allGood e (objStep e c u) us"
  proof (rule Cons.IH)
    show "distinct us" using Cons.prems(1) by simp
    fix x assume x: "x \<in> set us"
    with Cons.prems(1) have "x \<noteq> u" by auto
    with x Cons.prems(2) [of x]
    show "lookupCache (objStep e c' u) x = lookupCache (objStep e c u) x"
      by (simp add: lookup_objStep_other)
  qed
  with Cons.prems(2) [of u] show ?case by simp
qed

lemma allGood_distinct:
  "distinct us \<Longrightarrow>
   allGood e c us =
     (\<forall>u \<in> set us. case lookupCache c u of Some info \<Rightarrow> \<not> unclassed info | None \<Rightarrow> True)"
proof (induction us arbitrary: c)
  case Nil
  then show ?case by simp
next
  case (Cons u us)
  have "allGood e (objStep e c u) us = allGood e c us"
  proof (rule allGood_cong)
    show "distinct us" using Cons.prems by simp
    fix x assume "x \<in> set us"
    with Cons.prems have "x \<noteq> u" by auto
    then show "lookupCache (objStep e c u) x = lookupCache c x" by (rule lookup_objStep_other)
  qed
  with Cons show ?case by simp
qed

lemma fetchedAll_cong:
  "distinct us \<Longrightarrow> (\<And>x. x \<in> set us \<Longrightarrow> lookupCache c' x = lookupCache c x) \<Longrightarrow>
   fetchedAll e c' us = fetchedAll e c us"
proof (induction us arbitrary: c c')
  case Nil
  then show ?case by simp
next
  case (Cons u us)
  have "fetchedAll e (objStep e c' u) us = fetchedAll e (objStep e c u) us"
  proof (rule Cons.IH)
    show "distinct us" using Cons.prems(1) by simp
    fix x assume x: "x \<in> set us"
    with Cons.prems(1) have "x \<noteq> u" by auto
    with x Cons.prems(2) [of x]
    show "lookupCache (objStep e c' u) x = lookupCache (objStep e c u) x"
      by (simp add: lookup_objStep_other)
  qed
  with Cons.prems(2) [of u] show ?case by simp
qed

lemma fetchedAll_distinct:
  "distinct us \<Longrightarrow> fetchedAll e c us = filter (\<lambda>u. lookupCache c u = None) us"
proof (induction us arbitrary: c)
  case Nil
  then show ?case by simp
next
  case (Cons u us)
  have "fetchedAll e (objStep e c u) us = fetchedAll e c us"
  proof (rule fetchedAll_cong)
    show "distinct us" using Cons.prems by simp
    fix x assume "x \<in> set us"
    with Cons.prems have "x \<noteq> u" by auto
    then show "lookupCache (objStep e c u) x = lookupCache c x" by (rule lookup_objStep_other)
  qed
  with Cons show ?case by simp
qed

lemma cacheAfter_other: "x \<notin> set us \<Longrightarrow> lookupCache (cacheAfter e c us) x = lookupCache c x"
  by (induction us arbitrary: c) (auto simp: lookup_objStep_other)

lemma objStep_keeps: "c \<noteq> PrimitiveValue \<Longrightarrow> objStep e c u \<noteq> PrimitiveValue"
proof (cases c)
  case (ObjectValue m)
  with objStep_Object [of e m u] show ?thesis by auto
next
  case PrimitiveValue
  assume "c \<noteq> PrimitiveValue"
  with PrimitiveValue show ?thesis by simp
next
  case (ArrayValue m)
  with objStep_Array [of e m u] show ?thesis by auto
qed

lemma cacheAfter_distinct:
  "distinct us \<Longrightarrow> c \<noteq> PrimitiveValue \<Longrightarrow>
   lookupCache (cacheAfter e c us) x =
     (if x \<in> set us then cacheStep e (lookupCache c) x x else lookupCache c x)"
proof (induction us arbitrary: c)
  case Nil
  then show ?case by simp
next
  case (Cons u us)
  note keeps = objStep_keeps [OF Cons.prems(2), of e u]
  show ?case
  proof (cases "x = u")
    case True
    with Cons.prems have "x \<notin> set us" by simp
    from cacheAfter_other [OF this] True Cons.prems(2) show ?thesis
      by (simp add: lookup_objStep)
  next
    case False
    then have "cacheStep e (lookupCache (objStep e c u)) x x = cacheStep e (lookupCache c) x x"
      by (simp add: cacheStep_apply lookup_objStep_other)
    with Cons.IH [OF _ keeps] Cons.prems(1) False show ?thesis
      by (simp add: lookup_objStep_other)
  qed
qed

lemma distinct_detailUrls: "distinct (detailUrls html)"
proof -
  have "distinct (extractDetailLinks html)"
    by (simp add: extractDetailLinks_def arrayFromSet_first)
  then show ?thesis
    by (simp add: detailUrls_def distinct_map inj_on_def)
qed

section \<open>processName\<close>

lemma summary_verdict:
  "(score (summary v), explanation (summary v)) =
     (if \<not> hasLive v then
        (''Green'', ''No live trademark registrations were found for this name.'')
      else if hasRedMark v then
        (''Red'', ''At least one live filing lists classes 009, 028 or 041.'')
      else (''Yellow'', ''Live filings exist, but none contain 009, 028 or 041.''))"
  by (simp add: summary_def)

lemma details_summary: "details (summary v) = detailsV v"
  by (simp add: summary_def)

lemma processName_failed:
  "page e (searchUrl name) = Inl message \<Longrightarrow>
   processName e name w = (Inl message, w\<lparr>effects := effects w @ [Fetch (searchUrl name)]\<rparr>)"
  by (simp add: processName_def fetchPage_def)

lemma loaded_effects [simp]: "loaded name (w\<lparr>effects := es\<rparr>) = loaded name w"
  by (simp add: loaded_def loadCache_def)

lemma cachedFor_effects [simp]: "cachedFor name (w\<lparr>effects := es\<rparr>) = cachedFor name w"
  by (simp add: cachedFor_def)

lemma processName_good:
  assumes "page e (searchUrl name) = Inr html"
    and "allGood e (loaded name w) (detailUrls html)"
  shows "processName e name w =
     (Inr (summary
        \<lparr>detailsV = resolveAll e (loaded name w) (detailUrls html),
         hasLive = list_ex isLive (resolveAll e (loaded name w) (detailUrls html)),
         hasRedMark = list_ex liveRed (resolveAll e (loaded name w) (detailUrls html)),
         cached = cacheAfter e (loaded name w) (detailUrls html)\<rparr>),
      saveCache e name (cacheAfter e (loaded name w) (detailUrls html))
        (w\<lparr>effects := effects w @ [Fetch (searchUrl name), CacheRead name]
              @ map Fetch (fetchedAll e (loaded name w) (detailUrls html))\<rparr>))"
proof -
  let ?v0 = "\<lparr>detailsV = [], hasLive = False, hasRedMark = False, cached = loaded name w\<rparr>"
  let ?w2 = "w\<lparr>effects := effects w @ [Fetch (searchUrl name), CacheRead name]\<rparr>"
  have load: "loadCache name (w\<lparr>effects := effects w @ [Fetch (searchUrl name)]\<rparr>) = (loaded name w, ?w2)"
    by (simp add: loadCache_def loaded_def)
  have good: "allGood e (cached ?v0) (map ((@) baseUrl) (extractDetailLinks html))"
    using assms(2) by (simp add: detailUrls_def)
  show ?thesis
    unfolding processName_def
    by (simp add: fetchPage_def assms(1) load forLinks_good [OF good] detailUrls_def)
qed

lemma processName_bad:
  assumes "page e (searchUrl name) = Inr html"
    and "\<not> allGood e (loaded name w) (detailUrls html)"
  shows "fst (processName e name w) = Inl typeErrorMessage"
    and "files (snd (processName e name w)) = files w"
proof -
  let ?v0 = "\<lparr>detailsV = [], hasLive = False, hasRedMark = False, cached = loaded name w\<rparr>"
  let ?w2 = "w\<lparr>effects := effects w @ [Fetch (searchUrl name), CacheRead name]\<rparr>"
  have load: "loadCache name (w\<lparr>effects := effects w @ [Fetch (searchUrl name)]\<rparr>) = (loaded name w, ?w2)"
    by (simp add: loadCache_def loaded_def)
  have bad: "\<not> allGood e (cached ?v0) (map ((@) baseUrl) (extractDetailLinks html))"
    using assms(2) by (simp add: detailUrls_def)
  obtain x w3 where run: "forLinks e (extractDetailLinks html) ?v0 ?w2 = (x, w3)"
    by (cases "forLinks e (extractDetailLinks html) ?v0 ?w2")
  from forLinks_bad [OF bad, of ?w2] run have x: "x = Inl typeErrorMessage" by simp
  from forLinks_files [of e "extractDetailLinks html" ?v0 ?w2] run have w3: "files w3 = files w"
    by simp
  show "fst (processName e name w) = Inl typeErrorMessage"
    unfolding processName_def by (simp add: fetchPage_def assms(1) load run x)
  show "files (snd (processName e name w)) = files w"
    unfolding processName_def by (simp add: fetchPage_def assms(1) load run x w3)
qed

lemma loaded_files: "files w' = files w \<Longrightarrow> loaded name w' = loaded name w"
  by (simp add: loaded_def loadCache_def)

lemma cachedFor_files: "files w' = files w \<Longrightarrow> cachedFor name w' = cachedFor name w"
  unfolding cachedFor_def by (drule loaded_files [of w' w name]) simp

lemma allGood_cachedFor:
  "allGood e (loaded name w) (detailUrls html) =
     (\<forall>u \<in> set (detailUrls html).
        case cachedFor name w u of Some info \<Rightarrow> \<not> unclassed info | None \<Rightarrow> True)"
  by (simp add: allGood_distinct distinct_detailUrls cachedFor_def)

lemma wellFormed_allGood:
  "(\<And>u info. u \<in> set (detailUrls html) \<Longrightarrow> cachedFor name w u = Some info \<Longrightarrow> \<not> unclassed info) \<Longrightarrow>
   allGood e (loaded name w) (detailUrls html)"
  by (simp add: allGood_cachedFor split: option.splits)

lemma processName_Inr:
  assumes "processName e name w = (Inr r, w')"
  obtains html where "page e (searchUrl name) = Inr html"
    and "allGood e (loaded name w) (detailUrls html)"
proof (cases "page e (searchUrl name)")
  case (Inl message)
  from processName_failed [OF this, of w] assms show ?thesis by simp
next
  case (Inr html)
  have "allGood e (loaded name w) (detailUrls html)"
  proof (rule ccontr)
    assume "\<not> allGood e (loaded name w) (detailUrls html)"
    from processName_bad(1) [OF Inr this] assms show False by simp
  qed
  with Inr that show ?thesis by blast
qed

text \<open>
  What a call that is not stopped by a TypeError returns: one record for each URL of the
  search page, in order, and the score and explanation of these records.
\<close>

lemma processName_result:
  assumes h: "page e (searchUrl name) = Inr html"
    and good: "allGood e (loaded name w) (detailUrls html)"
  shows "\<exists>r w'. processName e name w = (Inr r, w')
     \<and> details r = map (resolve e (cachedFor name w)) (detailUrls html)
     \<and> (score r, explanation r) = verdict (details r)"
proof -
  let ?ds = "resolveAll e (loaded name w) (detailUrls html)"
  let ?v = "\<lparr>detailsV = ?ds, hasLive = list_ex isLive ?ds, hasRedMark = list_ex liveRed ?ds,
             cached = cacheAfter e (loaded name w) (detailUrls html)\<rparr>"
  have ds: "?ds = map (resolve e (cachedFor name w)) (detailUrls html)"
    by (simp add: resolveAll_distinct distinct_detailUrls cachedFor_def)
  have d: "details (summary ?v) = map (resolve e (cachedFor name w)) (detailUrls html)"
    by (simp add: details_summary ds)
  have s: "(score (summary ?v), explanation (summary ?v)) = verdict (details (summary ?v))"
    unfolding summary_verdict details_summary
    by (simp add: verdict_def hasLiveIn_def hasRedClassIn_def)
  have run: "fst (processName e name w) = Inr (summary ?v)"
    by (simp add: processName_good [OF h good])
  obtain x w' where xw: "processName e name w = (x, w')"
    by (cases "processName e name w")
  with run have "processName e name w = (Inr (summary ?v), w')" by simp
  with d s show ?thesis by blast
qed

lemma processName_verdict:
  assumes run: "processName e name w = (Inr r, w')"
  shows "(\<exists>html. page e (searchUrl name) = Inr html
            \<and> details r = map (resolve e (cachedFor name w)) (detailUrls html))
         \<and> (score r, explanation r) = verdict (details r)"
proof -
  from run obtain h where h: "page e (searchUrl name) = Inr h"
    and good: "allGood e (loaded name w) (detailUrls h)"
    by (rule processName_Inr)
  from processName_result [OF h good] obtain r1 w1 where "processName e name w = (Inr r1, w1)"
    and r1: "details r1 = map (resolve e (cachedFor name w)) (detailUrls h)"
      "(score r1, explanation r1) = verdict (details r1)"
    by blast
  with run have "r1 = r" by simp
  with r1 have "details r = map (resolve e (cachedFor name w)) (detailUrls h)
        \<and> (score r, explanation r) = verdict (details r)"
    by simp
  with h show ?thesis by blast
qed

lemma processName_returns:
  assumes h: "page e (searchUrl name) = Inr html"
    and wf: "\<And>u info. u \<in> set (detailUrls html) \<Longrightarrow> cachedFor name w u = Some info \<Longrightarrow> \<not> unclassed info"
  shows "\<exists>r w'. processName e name w = (Inr r, w')
     \<and> details r = map (resolve e (cachedFor name w)) (detailUrls html)
     \<and> (score r, explanation r) = verdict (details r)"
proof -
  have "allGood e (loaded name w) (detailUrls html)"
    using wf by (rule wellFormed_allGood)
  with h show ?thesis by (rule processName_result)
qed

text \<open>
  C1: the records of a result are, for the URLs of the search page in their order, the
  cached record where the cache of the name has one and otherwise the record parsed from the
  fetched page, or the error record when the fetch fails. The score and the explanation are
  those the specification gives for these records: Green when no record is LIVE, Red when a
  LIVE record lists 009, 028 or 041, Yellow otherwise, each with its fixed sentence.
  processName does return such a result when the search page is fetched and every cached
  record of these URLs that is LIVE has a list of classes.
\<close>

theorem processName_score:
  "(processName e name w = (Inr r, w') \<longrightarrow>
      (\<exists>html. page e (searchUrl name) = Inr html
         \<and> details r = map (resolve e (cachedFor name w)) (detailUrls html))
      \<and> (score r, explanation r) = verdict (details r))
   \<and> (page e (searchUrl name) = Inr html
        \<and> (\<forall>u \<in> set (detailUrls html). \<forall>info. cachedFor name w u = Some info \<longrightarrow> \<not> unclassed info)
      \<longrightarrow> (\<exists>r w'. processName e name w = (Inr r, w')
            \<and> details r = map (resolve e (cachedFor name w)) (detailUrls html)
            \<and> (score r, explanation r) = verdict (details r)))"
  using processName_verdict [of e name w r w'] processName_returns [of e name html w]
  by blast

lemma env0_search: "page env0 (searchUrl ''x'') = Inr searchPage0"
  by (simp add: env0_def)

lemma world0_empty: "cachedFor name world0 u = None"
  by (simp add: cachedFor_def loaded_def loadCache_def world0_def lookupCache_def)

lemma detailUrls_searchPage0: "detailUrls searchPage0 = [urlA, urlB]"
  by code_simp

lemma env0_pages:
  "page env0 urlA = Inr ''<p> LIVE </p> Class 028''" "page env0 urlB = Inl ''fetch failed''"
  by code_simp+

lemma world1_cached:
  "cachedFor ''x'' world1 urlA = None"
  "cachedFor ''x'' world1 urlB = Some (emptyObject\<lparr>status := Some ''LIVE'', classes := Some [''009'']\<rparr>)"
proof -
  have "urlA \<noteq> urlB" by (simp add: urlA_def urlB_def)
  then show "cachedFor ''x'' world1 urlA = None"
    by (simp add: cachedFor_def loaded_def loadCache_def world1_def lookupCache_def fromStored_def)
  show "cachedFor ''x'' world1 urlB = Some (emptyObject\<lparr>status := Some ''LIVE'', classes := Some [''009'']\<rparr>)"
    by (simp add: cachedFor_def loaded_def loadCache_def world1_def lookupCache_def fromStored_def)
qed

lemma pageA_parsed:
  "status (parseDetail ''<p> LIVE </p> Class 028'') = Some ''LIVE''"
  "classes (parseDetail ''<p> LIVE </p> Class 028'') = Some [''028'']"
  by code_simp+

theorem processName_score_witness:
  "\<exists>r w'. processName env0 ''x'' world1 = (Inr r, w')
     \<and> details r =
         [(parseDetail ''<p> LIVE </p> Class 028'')\<lparr>detailUrl := Some urlA\<rparr>,
          emptyObject\<lparr>status := Some ''LIVE'', classes := Some [''009''], detailUrl := Some urlB\<rparr>]
     \<and> score r = ''Red''
     \<and> explanation r = ''At least one live filing lists classes 009, 028 or 041.''"
proof -
  have wf: "\<forall>u \<in> set (detailUrls searchPage0). \<forall>info.
      cachedFor ''x'' world1 u = Some info \<longrightarrow> \<not> unclassed info"
    by (simp add: detailUrls_searchPage0 world1_cached unclassed_def)
  have "page env0 (searchUrl ''x'') = Inr searchPage0
        \<and> (\<forall>u \<in> set (detailUrls searchPage0). \<forall>info.
              cachedFor ''x'' world1 u = Some info \<longrightarrow> \<not> unclassed info)
      \<longrightarrow> (\<exists>r w'. processName env0 ''x'' world1 = (Inr r, w')
            \<and> details r = map (resolve env0 (cachedFor ''x'' world1)) (detailUrls searchPage0)
            \<and> (score r, explanation r) = verdict (details r))"
    by (rule conjunct2 [OF processName_score [of env0 "''x''" world1 undefined undefined searchPage0]])
  with wf env0_search
  obtain r w' where run: "processName env0 ''x'' world1 = (Inr r, w')"
    and ds: "details r = map (resolve env0 (cachedFor ''x'' world1)) (detailUrls searchPage0)"
    and v: "(score r, explanation r) = verdict (details r)"
    by blast
  have ds': "details r =
         [(parseDetail ''<p> LIVE </p> Class 028'')\<lparr>detailUrl := Some urlA\<rparr>,
          emptyObject\<lparr>status := Some ''LIVE'', classes := Some [''009''], detailUrl := Some urlB\<rparr>]"
    unfolding ds detailUrls_searchPage0
    by (simp add: resolve_def world1_cached env0_pages ensureDetailUrl_def emptyObject_def)
  have "verdict (details r) = (''Red'', ''At least one live filing lists classes 009, 028 or 041.'')"
    unfolding ds'
    by (simp add: verdict_def hasLiveIn_def hasRedClassIn_def isLive_def liveRed_def flagged_def
        pageA_parsed emptyObject_def)
  with v have "(score r, explanation r)
      = (''Red'', ''At least one live filing lists classes 009, 028 or 041.'')"
    by (rule trans)
  then have "score r = ''Red''"
    "explanation r = ''At least one live filing lists classes 009, 028 or 041.''"
    by simp_all
  with run ds' show ?thesis by blast
qed

text \<open>
  C6: when the search page cannot be fetched, processName throws the error of the fetch: the
  name gets the object that carries the message only, and no record. The call leaves the
  files as they were and performs the one request and nothing else, so the cache file of the
  name is neither read nor written; the batch goes on with the next name.
\<close>

theorem processName_search_failure:
  assumes "page e (searchUrl name) = Inl message"
  shows "fst (processName e name w) = Inl message
       \<and> files (snd (processName e name w)) = files w
       \<and> effects (snd (processName e name w)) = effects w @ [Fetch (searchUrl name)]
       \<and> forNames e (name # ns) result w =
           forNames e ns (assignResult result name (Inl message)) (snd (processName e name w))"
  by (simp add: processName_failed [OF assms])

theorem processName_search_failure_witness:
  "fst (processName env0 ''y'' world0) = Inl ''fetch failed''
   \<and> effects (snd (processName env0 ''y'' world0)) = [Fetch (searchUrl ''y'')]"
proof -
  have "searchUrl ''y'' \<noteq> searchUrl ''x''" "searchUrl ''y'' \<noteq> urlA"
    by (simp_all add: searchUrl_def urlA_def baseUrl_def encodeURIComponent_def encodeChar_def unreserved_def)
  then have "page env0 (searchUrl ''y'') = Inl ''fetch failed''"
    by (simp add: env0_def)
  from processName_search_failure [OF this, of world0] show ?thesis
    by (simp add: world0_def)
qed

section \<open>The classification does not depend on the order\<close>

lemma noteAll_closed:
  "noteAll ds v =
     (if list_ex unclassed ds then Inl typeErrorMessage
      else Inr (v\<lparr>hasLive := hasLive v \<or> list_ex isLive ds,
                  hasRedMark := hasRedMark v \<or> list_ex liveRed ds\<rparr>))"
proof (induction ds arbitrary: v)
  case Nil
  then show ?case by simp
next
  case (Cons d ds)
  show ?case
  proof (cases "unclassed d")
    case True
    then show ?thesis by (simp add: noteLive_unclassed)
  next
    case False
    then show ?thesis by (simp add: noteLive_classed Cons.IH)
  qed
qed

lemma classify_closed:
  "classify ds = (if list_ex unclassed ds then Inl typeErrorMessage else Inr (verdict ds))"
  by (simp add: classify_def noteAll_closed summary_def verdict_def hasLiveIn_def hasRedClassIn_def)

lemma classed_errorRecord: "\<not> unclassed (errorRecord m)"
  by (simp add: unclassed_def plain_errorRecord)

lemma classed_resolve:
  assumes "case c u of Some info \<Rightarrow> \<not> unclassed info | None \<Rightarrow> True"
  shows "\<not> unclassed (resolve e c u)"
proof (cases "c u")
  case None
  then show ?thesis
    by (cases "page e u") (simp_all add: resolve_def classed_fresh classed_errorRecord)
next
  case (Some info)
  with assms show ?thesis by (simp add: resolve_def)
qed

lemma classed_details:
  assumes "processName e name w = (Inr r, w')"
  shows "\<not> list_ex unclassed (details r)"
proof -
  from assms obtain h where h: "page e (searchUrl name) = Inr h"
    and good: "allGood e (loaded name w) (detailUrls h)"
    by (rule processName_Inr)
  from processName_result [OF h good] assms
  have "details r = map (resolve e (cachedFor name w)) (detailUrls h)"
    by auto
  moreover have "\<forall>u \<in> set (detailUrls h). \<not> unclassed (resolve e (cachedFor name w) u)"
  proof
    fix u assume "u \<in> set (detailUrls h)"
    with good have "case cachedFor name w u of Some info \<Rightarrow> \<not> unclassed info | None \<Rightarrow> True"
      by (simp add: allGood_cachedFor)
    then show "\<not> unclassed (resolve e (cachedFor name w) u)" by (rule classed_resolve)
  qed
  ultimately show ?thesis by (simp add: list_ex_iff)
qed

text \<open>
  C3: two lists with the same records in another order get the same classification, the
  same score and explanation or the same error; the classification of the records of a
  result is the score and the explanation processName returns with them; and a list with
  a LIVE record that lists 009, 028 or 041, in which every LIVE record has a list of
  classes, is classified Red wherever that record stands.
\<close>

theorem classify_permutation:
  "(mset ds = mset ds' \<longrightarrow> classify ds = classify ds')
   \<and> (processName e name w = (Inr r, w') \<longrightarrow> classify (details r) = Inr (score r, explanation r))
   \<and> ((\<exists>d \<in> set ds. liveRed d) \<and> (\<forall>d \<in> set ds. \<not> unclassed d) \<longrightarrow>
        classify ds = Inr (''Red'', ''At least one live filing lists classes 009, 028 or 041.''))"
proof (intro conjI impI)
  assume "mset ds = mset ds'"
  then have "set ds = set ds'" by (rule mset_eq_setD)
  then show "classify ds = classify ds'"
    by (simp add: classify_closed verdict_def hasLiveIn_def hasRedClassIn_def list_ex_iff)
next
  assume run: "processName e name w = (Inr r, w')"
  from processName_verdict [OF run]
  have "(score r, explanation r) = verdict (details r)" by blast
  with classed_details [OF run] show "classify (details r) = Inr (score r, explanation r)"
    by (simp add: classify_closed)
next
  assume "(\<exists>d \<in> set ds. liveRed d) \<and> (\<forall>d \<in> set ds. \<not> unclassed d)"
  then have red: "list_ex liveRed ds" and ok: "\<not> list_ex unclassed ds"
    by (simp_all add: list_ex_iff)
  from red have "list_ex isLive ds"
    by (auto simp: list_ex_iff liveRed_def)
  with red ok show "classify ds = Inr (''Red'', ''At least one live filing lists classes 009, 028 or 041.'')"
    by (simp add: classify_closed verdict_def hasLiveIn_def hasRedClassIn_def)
qed

theorem classify_permutation_witness:
  "classify [emptyObject\<lparr>status := Some ''DEAD''\<rparr>,
             emptyObject\<lparr>status := Some ''LIVE'', classes := Some [''016'', ''028'']\<rparr>]
     = classify [emptyObject\<lparr>status := Some ''LIVE'', classes := Some [''016'', ''028'']\<rparr>,
                 emptyObject\<lparr>status := Some ''DEAD''\<rparr>]
   \<and> classify [emptyObject\<lparr>status := Some ''DEAD''\<rparr>,
               emptyObject\<lparr>status := Some ''LIVE'', classes := Some [''016'', ''028'']\<rparr>]
     = Inr (''Red'', ''At least one live filing lists classes 009, 028 or 041.'')
   \<and> (\<exists>r w'. processName env0 ''x'' world0 = (Inr r, w')
         \<and> classify (details r) = Inr (score r, explanation r))"
proof -
  let ?dead = "emptyObject\<lparr>status := Some ''DEAD''\<rparr>"
  let ?live = "emptyObject\<lparr>status := Some ''LIVE'', classes := Some [''016'', ''028'']\<rparr>"
  have perm: "mset [?dead, ?live] = mset [?live, ?dead]" by simp
  have red: "(\<exists>d \<in> set [?dead, ?live]. liveRed d) \<and> (\<forall>d \<in> set [?dead, ?live]. \<not> unclassed d)"
    by (simp add: liveRed_def isLive_def unclassed_def flagged_def emptyObject_def)
  have "\<not> unclassed info"
    if "u \<in> set (detailUrls searchPage0)" "cachedFor ''x'' world0 u = Some info" for u info
    using that by (simp add: world0_empty)
  with processName_returns [of env0 "''x''" searchPage0 world0, OF env0_search]
  obtain r w' where run: "processName env0 ''x'' world0 = (Inr r, w')" by blast
  from classify_permutation [of "[?dead, ?live]" "[?live, ?dead]" env0 "''x''" world0 r w'] perm red run
  show ?thesis by blast
qed

section \<open>Calling processName again\<close>





lemma good_after:
  assumes "c1 u = cacheStep e c u u"
    and "case c u of Some info \<Rightarrow> \<not> unclassed info | None \<Rightarrow> True"
  shows "case c1 u of Some info \<Rightarrow> \<not> unclassed info | None \<Rightarrow> True"
proof (cases "c u")
  case None
  with assms(1) show ?thesis
    by (cases "page e u") (simp_all add: cacheStep_apply classed_fresh)
next
  case (Some info)
  with assms show ?thesis by (simp add: cacheStep_apply)
qed


lemma loaded_saveCache:
  "loaded name (saveCache e name data w) =
     (case writeFile e (cacheFile name) of
        Written \<Rightarrow> fromStored (stringified data)
      | Refused \<Rightarrow> loaded name w
      | Truncated \<Rightarrow> ObjectValue Map.empty)"
  by (simp add: loaded_def saveCache_def loadCache_def split: writeResult.splits)

lemma lookup_reloaded:
  "lookupCache (fromStored (stringified c)) x =
     (case c of ObjectValue m \<Rightarrow> m x | PrimitiveValue \<Rightarrow> None | ArrayValue m \<Rightarrow> None)"
  by (cases c) (simp_all add: fromStored_def stringified_def lookupCache_def)



text \<open>
  What the cache of the name holds, for a URL of the search page, after a call that was not
  stopped by a TypeError: what the loop stored, when the file held an object and the write
  succeeded; nothing, when the write emptied the file or when the file holds a string, a
  number, \<open>true\<close> or an array under \<open>detailCache\<close>; what was there before, when the write
  was refused.
\<close>

lemma next_cache:
  assumes h: "page e (searchUrl name) = Inr html"
    and good: "allGood e (loaded name w) (detailUrls html)"
    and u: "u \<in> set (detailUrls html)"
  shows "cachedFor name (snd (processName e name w)) u =
     (case writeFile e (cacheFile name) of
        Written \<Rightarrow>
          (if \<exists>m. loaded name w = ObjectValue m then cacheStep e (cachedFor name w) u u else None)
      | Refused \<Rightarrow> cachedFor name w u
      | Truncated \<Rightarrow> None)"
proof (cases "writeFile e (cacheFile name)")
  case Written
  have "lookupCache (fromStored (stringified (cacheAfter e (loaded name w) (detailUrls html)))) u
      = (if \<exists>m. loaded name w = ObjectValue m then cacheStep e (cachedFor name w) u u else None)"
  proof (cases "loaded name w")
    case (ObjectValue m)
    from cacheAfter_Object [of e m "detailUrls html"] obtain m'
      where m': "cacheAfter e (ObjectValue m) (detailUrls html) = ObjectValue m'" by blast
    have "lookupCache (cacheAfter e (ObjectValue m) (detailUrls html)) u
        = cacheStep e (lookupCache (ObjectValue m)) u u"
      using u by (simp add: cacheAfter_distinct distinct_detailUrls)
    then have "m' u = cacheStep e (cachedFor name w) u u"
      unfolding m' cachedFor_def ObjectValue by (simp add: lookupCache_def)
    then show ?thesis
      unfolding ObjectValue m' by (simp add: lookup_reloaded)
  next
    case PrimitiveValue
    then show ?thesis by (simp add: lookup_reloaded)
  next
    case (ArrayValue m)
    from cacheAfter_Array [of e m "detailUrls html"] obtain m'
      where "cacheAfter e (ArrayValue m) (detailUrls html) = ArrayValue m'" by blast
    with ArrayValue show ?thesis by (simp add: lookup_reloaded)
  qed
  with Written show ?thesis
    by (simp add: processName_good [OF h good] cachedFor_def loaded_saveCache)
next
  case Refused
  then show ?thesis
    by (simp add: processName_good [OF h good] cachedFor_def loaded_saveCache)
next
  case Truncated
  then show ?thesis
    by (simp add: processName_good [OF h good] cachedFor_def loaded_saveCache lookupCache_def)
qed


lemma next_good:
  assumes h: "page e (searchUrl name) = Inr html"
    and good: "allGood e (loaded name w) (detailUrls html)"
  shows "allGood e (loaded name (snd (processName e name w))) (detailUrls html)"
proof -
  have "case cachedFor name (snd (processName e name w)) u of
          Some info \<Rightarrow> \<not> unclassed info | None \<Rightarrow> True"
    if u: "u \<in> set (detailUrls html)" for u
  proof -
    from good u have before: "case cachedFor name w u of Some info \<Rightarrow> \<not> unclassed info | None \<Rightarrow> True"
      by (simp add: allGood_cachedFor)
    show ?thesis
    proof (cases "writeFile e (cacheFile name)")
      case Written
      show ?thesis
      proof (cases "\<exists>m. loaded name w = ObjectValue m")
        case True
        with next_cache [OF h good u] Written
        have "cachedFor name (snd (processName e name w)) u = cacheStep e (cachedFor name w) u u"
          by simp
        then show ?thesis using before by (rule good_after)
      next
        case False
        with next_cache [OF h good u] Written show ?thesis by simp
      qed
    next
      case Refused
      with next_cache [OF h good u] before show ?thesis by simp
    next
      case Truncated
      with next_cache [OF h good u] show ?thesis by simp
    qed
  qed
  then show ?thesis by (simp add: allGood_cachedFor)
qed


lemma processName_effects:
  assumes h: "page e (searchUrl name) = Inr html"
    and good: "allGood e (loaded name w) (detailUrls html)"
  shows "effects (snd (processName e name w)) =
     effects w @ [Fetch (searchUrl name), CacheRead name]
       @ map Fetch (filter (\<lambda>u. cachedFor name w u = None) (detailUrls html))
       @ [CacheWrite name]"
  by (simp add: processName_good [OF h good] saveCache_def fetchedAll_distinct distinct_detailUrls
      cachedFor_def)







section \<open>A detail page that cannot be fetched\<close>

text \<open>
  C7: when the page of a discovered URL that is not cached cannot be fetched, processName
  still returns a result, with one record for each URL in the order of discovery; the record
  at the place of that URL carries the error and nothing else; the cache mapping of the name
  has no entry for the URL afterwards, and the next call requests the page again; the batch
  goes on with the next name.
\<close>

theorem processName_detail_failure:
  assumes h: "page e (searchUrl name) = Inr html"
    and wf: "\<forall>u info. cachedFor name w u = Some info \<longrightarrow> \<not> unclassed info"
    and i: "i < length (detailUrls html)"
    and miss: "cachedFor name w (detailUrls html ! i) = None"
    and fail: "page e (detailUrls html ! i) = Inl message"
  shows "\<exists>r w'. processName e name w = (Inr r, w')
     \<and> details r = map (resolve e (cachedFor name w)) (detailUrls html)
     \<and> details r ! i = errorRecord message
     \<and> error (details r ! i) = Some (''Error processing detail page: '' @ message)
     \<and> cachedFor name w' (detailUrls html ! i) = None
     \<and> Fetch (detailUrls html ! i)
         \<in> set (drop (length (effects w')) (effects (snd (processName e name w'))))
     \<and> forNames e (name # ns) result w = forNames e ns (assignResult result name (Inr r)) w'"
proof -
  let ?c = "cachedFor name w"
  let ?u = "detailUrls html ! i"
  from i have u: "?u \<in> set (detailUrls html)" by simp
  have good: "allGood e (loaded name w) (detailUrls html)"
    using wf by (intro wellFormed_allGood) blast
  from processName_result [OF h good]
  obtain r w' where run: "processName e name w = (Inr r, w')"
    and ds: "details r = map (resolve e ?c) (detailUrls html)"
    by blast
  have rec: "details r ! i = errorRecord message"
    using i miss fail by (simp add: ds resolve_def)
  have w': "w' = snd (processName e name w)" using run by simp
  have step: "cacheStep e ?c ?u ?u = None"
    using miss fail by (simp add: cacheStep_apply)
  have gone: "cachedFor name w' ?u = None"
    unfolding w' next_cache [OF h good u]
    using miss step by (simp split: writeResult.splits)
  have again: "allGood e (loaded name w') (detailUrls html)"
    unfolding w' by (rule next_good [OF h good])
  have "?u \<in> set (filter (\<lambda>x. cachedFor name w' x = None) (detailUrls html))"
    using u gone by simp
  then have retried: "Fetch ?u \<in> set (drop (length (effects w')) (effects (snd (processName e name w'))))"
    by (simp add: processName_effects [OF h again])
  have "forNames e (name # ns) result w = forNames e ns (assignResult result name (Inr r)) w'"
    by (simp add: run)
  with run ds rec gone retried show ?thesis
    by (simp add: errorRecord_def emptyObject_def)
qed

theorem processName_detail_failure_witness:
  "\<exists>r w'. processName env0 ''x'' world0 = (Inr r, w')
     \<and> details r ! 1 = errorRecord ''fetch failed''
     \<and> cachedFor ''x'' w' urlB = None
     \<and> Fetch urlB \<in> set (drop (length (effects w')) (effects (snd (processName env0 ''x'' w'))))"
proof -
  have wf: "\<forall>u info. cachedFor ''x'' world0 u = Some info \<longrightarrow> \<not> unclassed info"
    by (simp add: world0_empty)
  have i: "1 < length (detailUrls searchPage0)" and u: "detailUrls searchPage0 ! 1 = urlB"
    by (simp_all add: detailUrls_searchPage0)
  have miss: "cachedFor ''x'' world0 (detailUrls searchPage0 ! 1) = None"
    by (simp add: world0_empty)
  have fail: "page env0 (detailUrls searchPage0 ! 1) = Inl ''fetch failed''"
    by (simp add: detailUrls_searchPage0 env0_pages)
  from processName_detail_failure [OF env0_search wf i miss fail] show ?thesis
    unfolding u by blast
qed

section \<open>Cache files that keep nothing\<close>

text \<open>
  When the cache file has a string under \<open>detailCache\<close>, the assignments of the loop are
  dropped and the file is written back as it was: the second call requests both detail
  pages of the example again, the first of which was fetched and parsed by the first call.
\<close>

lemma string_detailCache_refetch:
  "drop (length (effects (snd (processName env0 ''x'' worldString))))
     (effects (snd (processName env0 ''x'' (snd (processName env0 ''x'' worldString)))))
   = [Fetch (searchUrl ''x''), CacheRead ''x'', Fetch urlA, Fetch urlB, CacheWrite ''x'']"
proof -
  have l: "loaded ''x'' worldString = PrimitiveValue"
    by (simp add: loaded_def loadCache_def worldString_def fromStored_def)
  then have none: "cachedFor ''x'' worldString u = None" for u
    by (simp add: cachedFor_def)
  have good: "allGood env0 (loaded ''x'' worldString) (detailUrls searchPage0)"
    by (rule wellFormed_allGood) (simp add: none)
  have "cachedFor ''x'' (snd (processName env0 ''x'' worldString)) u = None"
    if "u \<in> set (detailUrls searchPage0)" for u
    unfolding next_cache [OF env0_search good that] by (simp add: l env0_def)
  then have "filter (\<lambda>u. cachedFor ''x'' (snd (processName env0 ''x'' worldString)) u = None)
      (detailUrls searchPage0) = detailUrls searchPage0"
    by (simp add: filter_id_conv)
  with processName_effects [OF env0_search next_good [OF env0_search good]] show ?thesis
    by (simp add: detailUrls_searchPage0)
qed

text \<open>
  When the write fails after the file was opened, the cached record of the second detail
  page of the example is lost: the first call returns it, the second call requests the page,
  which cannot be fetched, and returns the error record in its place.
\<close>

lemma truncated_write_changes_outcome:
  "map (\<lambda>r. details r ! 1) [projr (fst (processName envTruncating ''x'' world1)),
      projr (fst (processName envTruncating ''x'' (snd (processName envTruncating ''x'' world1))))]
   = [emptyObject\<lparr>status := Some ''LIVE'', classes := Some [''009''], detailUrl := Some urlB\<rparr>,
      errorRecord ''fetch failed'']"
proof -
  have pages: "page envTruncating = page env0" by (simp add: envTruncating_def)
  have h: "page envTruncating (searchUrl ''x'') = Inr searchPage0"
    by (simp add: pages env0_search)
  have good: "allGood envTruncating (loaded ''x'' world1) (detailUrls searchPage0)"
    by (rule wellFormed_allGood)
       (auto simp: detailUrls_searchPage0 world1_cached unclassed_def)
  let ?w1 = "snd (processName envTruncating ''x'' world1)"
  have tr: "writeFile envTruncating (cacheFile ''x'') = Truncated"
    by (simp add: envTruncating_def)
  have lost: "cachedFor ''x'' ?w1 u = None" if "u \<in> set (detailUrls searchPage0)" for u
    unfolding next_cache [OF h good that] by (simp add: tr)
  from processName_result [OF h good]
  obtain r1 v1 where r1: "processName envTruncating ''x'' world1 = (Inr r1, v1)"
    and d1: "details r1 = map (resolve envTruncating (cachedFor ''x'' world1)) (detailUrls searchPage0)"
    by blast
  from processName_result [OF h next_good [OF h good]]
  obtain r2 v2 where r2: "processName envTruncating ''x'' ?w1 = (Inr r2, v2)"
    and d2: "details r2 = map (resolve envTruncating (cachedFor ''x'' ?w1)) (detailUrls searchPage0)"
    by blast
  have "details r1 ! 1 = emptyObject\<lparr>status := Some ''LIVE'', classes := Some [''009''], detailUrl := Some urlB\<rparr>"
    unfolding d1 detailUrls_searchPage0
    by (simp add: resolve_def world1_cached ensureDetailUrl_def emptyObject_def)
  moreover have "details r2 ! 1 = errorRecord ''fetch failed''"
    unfolding d2 detailUrls_searchPage0
    by (simp add: resolve_def lost detailUrls_searchPage0 pages env0_pages)
  ultimately show ?thesis using r1 r2 by simp
qed

section \<open>Cached records without a list of classes\<close>

lemma world8_cached: "cachedFor ''x'' world8 urlA = Some (emptyObject\<lparr>status := Some ''LIVE''\<rparr>)"
  by (simp add: cachedFor_def loaded_def loadCache_def world8_def fromStored_def lookupCache_def)

lemma world8_bad: "\<not> allGood env0 (loaded ''x'' world8) (detailUrls searchPage0)"
proof -
  have "lookupCache (loaded ''x'' world8) urlA = Some (emptyObject\<lparr>status := Some ''LIVE''\<rparr>)"
    using world8_cached by (simp add: cachedFor_def)
  then show ?thesis
    by (simp add: detailUrls_searchPage0 unclassed_def isLive_def emptyObject_def)
qed

text \<open>
  C8 fails on the code. The cache file holds, for the first detail page of the example, a
  record with status LIVE and no \<open>classes\<close> property. processName throws the TypeError of
  \<open>info.classes.includes\<close>, and the response gives the name the error instead of a score.
\<close>

theorem cached_live_record_without_classes:
  "fst (processName env0 ''x'' world8) = Inl typeErrorMessage
   \<and> (\<exists>result w'. handleSearch env0 (Some ''x'') world8 = (Ok result, w')
         \<and> result ''x'' = Some (Inl typeErrorMessage))"
proof -
  have thrown: "fst (processName env0 ''x'' world8) = Inl typeErrorMessage"
    using env0_search world8_bad by (rule processName_bad(1))
  have names: "nameList ''x'' = [''x'']" by code_simp
  obtain r w' where run: "processName env0 ''x'' world8 = (r, w')"
    by (cases "processName env0 ''x'' world8")
  with thrown have r: "r = Inl typeErrorMessage" by simp
  have "handleSearch env0 (Some ''x'') world8 = (Ok [''x'' \<mapsto> Inl typeErrorMessage], w')"
    by (simp add: handleSearch_def names run r assignResult_def)
  with thrown show ?thesis by simp
qed

section \<open>The batch\<close>

lemma forNames_outcomes:
  "fst (forNames e ns result w) = foldl (\<lambda>m (n, r). assignResult m n r) result (outcomes e ns w)"
  by (induction ns arbitrary: result w) (simp_all split: prod.splits)

lemma outcomes_names: "map fst (outcomes e ns w) = ns"
  by (induction ns arbitrary: w) simp_all

lemma foldl_assignResult:
  "n \<noteq> ''__proto__'' \<Longrightarrow>
   foldl (\<lambda>m (k, r). assignResult m k r) result ps n =
     (case map_of (rev ps) n of Some r \<Rightarrow> Some r | None \<Rightarrow> result n)"
proof (induction ps arbitrary: result)
  case Nil
  then show ?case by simp
next
  case (Cons p ps)
  obtain k r where p: "p = (k, r)" by (cases p)
  have here: "assignResult result k r n = (if n = k then Some r else result n)"
    using Cons.prems by (auto simp: assignResult_def)
  have "foldl (\<lambda>m (k, r). assignResult m k r) result (p # ps) n
      = foldl (\<lambda>m (k, r). assignResult m k r) (assignResult result k r) ps n"
    by (simp add: p)
  also have "\<dots> = (case map_of (rev ps) n of Some r' \<Rightarrow> Some r' | None \<Rightarrow> assignResult result k r n)"
    by (rule Cons.IH [OF Cons.prems])
  also have "\<dots> = (case map_of (rev (p # ps)) n of Some r' \<Rightarrow> Some r' | None \<Rightarrow> result n)"
    by (simp add: p here map_add_def split: option.splits)
  finally show ?case .
qed

text \<open>
  For every name but \<open>__proto__\<close>, the response maps the name to the outcome of its last
  call.
\<close>

lemma forNames_last_wins:
  "n \<noteq> ''__proto__'' \<Longrightarrow>
   fst (forNames e ns Map.empty w) n = map_of (rev (outcomes e ns w)) n"
  by (simp add: forNames_outcomes foldl_assignResult split: option.splits)

lemma nameList_example:
  "nameList (''golden emperor, urban jungle,,'' @ [CHR 0x0A] @ '' golden emperor '')
     = [''golden emperor'', ''urban jungle'', ''golden emperor'']"
  by code_simp

text \<open>
  C10 fails on the code for the name \<open>__proto__\<close>. Both entries of the batch are processed,
  each with its own request for the search page, and the response has no entry for the
  name.
\<close>

theorem proto_name_missing_from_response:
  "\<exists>result w'. handleSearch env0 (Some ''__proto__,__proto__'') world0 = (Ok result, w')
     \<and> outcomes env0 (nameList ''__proto__,__proto__'') world0
         = [(''__proto__'', Inl ''fetch failed''), (''__proto__'', Inl ''fetch failed'')]
     \<and> effects w' = [Fetch (searchUrl ''__proto__''), Fetch (searchUrl ''__proto__'')]
     \<and> result ''__proto__'' = None"
proof -
  have names: "nameList ''__proto__,__proto__'' = [''__proto__'', ''__proto__'']" by code_simp
  have "searchUrl ''__proto__'' \<noteq> searchUrl ''x''" "searchUrl ''__proto__'' \<noteq> urlA"
    by (simp_all add: searchUrl_def urlA_def baseUrl_def encodeURIComponent_def encodeChar_def unreserved_def)
  then have fail: "page env0 (searchUrl ''__proto__'') = Inl ''fetch failed''"
    by (simp add: env0_def)
  show ?thesis
    by (simp add: handleSearch_def names processName_failed [OF fail] assignResult_def world0_def)
qed

end
